theory Spec2Isabelle
  imports Main
begin

section \<open>Python values shared by both source files\<close>

text \<open>
  The two source files exchange a JSON document: \<^verbatim>\<open>yc.py\<close> writes the list of people,
  \<^verbatim>\<open>table.py\<close> loads it again. The leaves of that document are strings, \<^verbatim>\<open>null\<close> and
  integers; a JSON float is outside the model. Strings are lists of 8-bit characters, so the
  model speaks about ASCII text; where the source consults the Unicode tables they are taken as
  parameters (see \<open>normalize_text\<close>).
\<close>

datatype pyval = PNone | PInt int | PStr string

datatype error = ValueError | TypeError | AttributeError | IndexError | KeyError

text \<open>A flat dictionary with string keys; \<open>map_of\<close> is the lookup.\<close>

type_synonym pydict = "(string \<times> pyval) list"

definition dict_get :: "pydict \<Rightarrow> string \<Rightarrow> pyval \<Rightarrow> pyval" where
  "dict_get d k dflt = (case map_of d k of None \<Rightarrow> dflt | Some v \<Rightarrow> v)"

text \<open>Truth value of a leaf, as \<^verbatim>\<open>if x:\<close> tests it.\<close>

fun truthy :: "pyval \<Rightarrow> bool" where
  "truthy PNone = False"
| "truthy (PInt n) = (n \<noteq> 0)"
| "truthy (PStr s) = (s \<noteq> [])"

subsection \<open>The built-in \<^verbatim>\<open>int()\<close>\<close>

text \<open>
  \<^verbatim>\<open>int(None)\<close> raises TypeError, \<^verbatim>\<open>int(n)\<close> is \<open>n\<close>, and \<^verbatim>\<open>int(s)\<close> for a string strips
  white space (on ASCII text the characters 9 to 13 and the space), reads one optional sign
  and then decimal digits in which single underscores may separate digits; anything else
  raises ValueError. The interpreter's configurable bound on the number of digits is not part
  of the model.
\<close>

definition int_isspace :: "char \<Rightarrow> bool" where
  "int_isspace c \<longleftrightarrow> (let n = (of_char c :: nat) in (9 \<le> n \<and> n \<le> 13) \<or> n = 32)"

definition py_isdigit :: "char \<Rightarrow> bool" where
  "py_isdigit c \<longleftrightarrow> (let n = (of_char c :: nat) in 48 \<le> n \<and> n \<le> 57)"

definition digit_val :: "char \<Rightarrow> int" where
  "digit_val c = int (of_char c) - 48"

definition int_strip :: "string \<Rightarrow> string" where
  "int_strip s = rev (dropWhile int_isspace (rev (dropWhile int_isspace s)))"

fun after_digit :: "string \<Rightarrow> bool" where
  "after_digit [] = True"
| "after_digit (c # cs) =
     (if py_isdigit c then after_digit cs
      else if c = CHR ''_'' then
        (case cs of [] \<Rightarrow> False | d # ds \<Rightarrow> py_isdigit d \<and> after_digit ds)
      else False)"

definition digits_ok :: "string \<Rightarrow> bool" where
  "digits_ok s = (case s of [] \<Rightarrow> False | c # cs \<Rightarrow> py_isdigit c \<and> after_digit cs)"

definition digits_value :: "string \<Rightarrow> int" where
  "digits_value s = foldl (\<lambda>acc c. 10 * acc + digit_val c) 0 (filter (\<lambda>c. c \<noteq> CHR ''_'') s)"

definition int_of_str :: "string \<Rightarrow> error + int" where
  "int_of_str s =
     (let t = int_strip s;
          (neg, ds) = (case t of
                         [] \<Rightarrow> (False, [])
                       | c # cs \<Rightarrow> if c = CHR ''-'' then (True, cs)
                                  else if c = CHR ''+'' then (False, cs)
                                  else (False, t))
      in if digits_ok ds then Inr (if neg then - digits_value ds else digits_value ds)
         else Inl ValueError)"

fun py_int :: "pyval \<Rightarrow> error + int" where
  "py_int PNone = Inl TypeError"
| "py_int (PInt n) = Inr n"
| "py_int (PStr s) = int_of_str s"

section \<open>table.py\<close>

text \<open>
  A person as \<^verbatim>\<open>load_json\<close> returns it. \<^verbatim>\<open>table.py\<close> reads the keys \<^verbatim>\<open>name\<close>, \<^verbatim>\<open>title\<close> and
  \<^verbatim>\<open>category\<close> with \<^verbatim>\<open>person.get(key)\<close>, which answers \<^verbatim>\<open>None\<close> for a missing key, so a
  missing key and a \<^verbatim>\<open>null\<close> are both \<open>PNone\<close>. The keys \<^verbatim>\<open>profile\<close> and \<^verbatim>\<open>hn_profiles\<close> are
  read with a default, so there \<open>None\<close> stands for the missing key. The entries of
  \<^verbatim>\<open>hn_profiles\<close> are flat dictionaries. The same records are what \<^verbatim>\<open>yc.py\<close> builds, which
  also reads \<^verbatim>\<open>profile_link\<close> and writes \<^verbatim>\<open>social_links\<close>; the keys \<^verbatim>\<open>image_url\<close> and
  \<^verbatim>\<open>description\<close>, which no function below reads, are left out.
\<close>

record profile =
  social_links :: pydict
  hn_profiles :: "pydict list option"

record person =
  name :: pyval
  title :: pyval
  category :: pyval
  profile_link :: pyval
  profile :: "profile option"

subsection \<open>\<^verbatim>\<open>get_users_by_category\<close>\<close>

text \<open>\<^verbatim>\<open>person.get("category") == category\<close> with \<^verbatim>\<open>category\<close> a string.\<close>

fun eq_str :: "pyval \<Rightarrow> string \<Rightarrow> bool" where
  "eq_str (PStr s) c = (s = c)"
| "eq_str _ c = False"

fun get_users_by_category :: "person list \<Rightarrow> string option \<Rightarrow> person list" where
  "get_users_by_category data None = data"
| "get_users_by_category data (Some c) = [p. p \<leftarrow> data, eq_str (category p) c]"

subsection \<open>\<^verbatim>\<open>get_top_username\<close>\<close>

text \<open>
  \<^verbatim>\<open>max(iterable, key=f)\<close> keeps the first item and replaces it only by an item whose key is
  strictly greater; an exception raised by \<open>f\<close> leaves \<^verbatim>\<open>max\<close> at once. On an empty
  iterable \<^verbatim>\<open>max\<close> raises ValueError.
\<close>

fun max_loop :: "('a \<Rightarrow> error + int) \<Rightarrow> 'a \<Rightarrow> int \<Rightarrow> 'a list \<Rightarrow> error + 'a" where
  "max_loop f best bk [] = Inr best"
| "max_loop f best bk (u # us) =
     (case f u of
        Inl e \<Rightarrow> Inl e
      | Inr k \<Rightarrow> if bk < k then max_loop f u k us else max_loop f best bk us)"

definition py_max :: "('a \<Rightarrow> error + int) \<Rightarrow> 'a list \<Rightarrow> error + 'a" where
  "py_max f xs =
     (case xs of
        [] \<Rightarrow> Inl ValueError
      | u # us \<Rightarrow> (case f u of Inl e \<Rightarrow> Inl e | Inr k \<Rightarrow> max_loop f u k us))"

text \<open>The key function \<^verbatim>\<open>lambda u: int(u.get("karma", 0))\<close>.\<close>

definition karma_key :: "pydict \<Rightarrow> error + int" where
  "karma_key u = py_int (dict_get u ''karma'' (PInt 0))"

text \<open>
  \<^verbatim>\<open>profile.get("hn_profiles", [])\<close>, the test \<^verbatim>\<open>if not hn_profiles\<close>, and the handler that
  turns a ValueError, and no other exception, into \<^verbatim>\<open>None\<close>.
\<close>

definition get_top_username :: "profile \<Rightarrow> error + pydict option" where
  "get_top_username prof =
     (let hn = (case hn_profiles prof of None \<Rightarrow> [] | Some l \<Rightarrow> l)
      in if hn = [] then Inr None
         else (case py_max karma_key hn of
                 Inr u \<Rightarrow> Inr (Some u)
               | Inl ValueError \<Rightarrow> Inr None
               | Inl e \<Rightarrow> Inl e))"

subsection \<open>\<^verbatim>\<open>export_to_csv\<close>\<close>

text \<open>
  The dictionary handed to \<^verbatim>\<open>writer.writerow\<close>, one field per column of \<^verbatim>\<open>fieldnames\<close>.
\<close>

record csv_row =
  Name :: pyval
  Title :: pyval
  Category :: pyval
  HN_Username :: pyval
  Email :: string
  Created :: pyval
  Karma :: pyval
  About :: pyval

definition fieldnames :: "string list" where
  "fieldnames = [''Name'', ''Title'', ''Category'', ''HN Username'', ''Email'', ''Created'',
                 ''Karma'', ''About'']"

text \<open>How an f-string renders a leaf: \<^verbatim>\<open>str(x)\<close>.\<close>

fun digits_of :: "nat \<Rightarrow> string" where
  "digits_of n = (if n < 10 then [char_of (48 + n)] else digits_of (n div 10) @ [char_of (48 + n mod 10)])"

declare digits_of.simps [simp del]

fun py_str :: "pyval \<Rightarrow> string" where
  "py_str PNone = ''None''"
| "py_str (PInt n) = (if n < 0 then CHR ''-'' # digits_of (nat (- n)) else digits_of (nat n))"
| "py_str (PStr s) = s"

definition make_email :: "pyval \<Rightarrow> string" where
  "make_email username = (if truthy username then py_str username @ ''@ycombinator.com'' else [])"

definition make_row :: "person \<Rightarrow> pydict \<Rightarrow> csv_row" where
  "make_row p top_profile =
     (let username = dict_get top_profile ''username'' PNone
      in \<lparr>Name = name p, Title = title p, Category = category p,
          HN_Username = username, Email = make_email username,
          Created = dict_get top_profile ''created'' PNone,
          Karma = dict_get top_profile ''karma'' PNone,
          About = dict_get top_profile ''about'' PNone\<rparr>)"

text \<open>
  \<^verbatim>\<open>person.get("profile", {})\<close>: a person without the key has the empty profile. Then the
  loop over \<^verbatim>\<open>users\<close>. The rows written so far are the state; an exception from
  \<^verbatim>\<open>get_top_username\<close> ends the loop and is returned beside the rows already written.
  \<^verbatim>\<open>if top_profile:\<close> is false for \<^verbatim>\<open>None\<close> and for an empty dictionary.
\<close>

definition person_profile :: "person \<Rightarrow> profile" where
  "person_profile p = (case profile p of None \<Rightarrow> \<lparr>social_links = [], hn_profiles = None\<rparr> | Some pr \<Rightarrow> pr)"

fun export_loop :: "csv_row list \<Rightarrow> person list \<Rightarrow> csv_row list \<times> error option" where
  "export_loop written [] = (written, None)"
| "export_loop written (p # ps) =
     (case get_top_username (person_profile p) of
        Inl e \<Rightarrow> (written, Some e)
      | Inr None \<Rightarrow> export_loop written ps
      | Inr (Some top_profile) \<Rightarrow>
          if top_profile \<noteq> [] then export_loop (written @ [make_row p top_profile]) ps
          else export_loop written ps)"

definition export_to_csv :: "person list \<Rightarrow> csv_row list \<times> error option" where
  "export_to_csv users = export_loop [] users"

text \<open>What the loop writes for one person: one row, or nothing.\<close>

definition rows_for :: "person \<Rightarrow> csv_row list" where
  "rows_for p =
     (case get_top_username (person_profile p) of
        Inr (Some u) \<Rightarrow> if u = [] then [] else [make_row p u]
      | _ \<Rightarrow> [])"

section \<open>yc.py\<close>

subsection \<open>Names: \<^verbatim>\<open>normalize\<close> and the candidate list\<close>

text \<open>
  \<^verbatim>\<open>normalize\<close> decomposes the text (\<^verbatim>\<open>unicodedata.normalize('NFKD', text)\<close>), drops the
  characters for which \<^verbatim>\<open>unicodedata.combining\<close> is not zero and lower-cases the rest;
  \<^verbatim>\<open>str.split()\<close> cuts at white space. The four tables belong to the interpreter, not to
  the repository, and are parameters here; \<open>ascii_tables\<close> is what they are on ASCII text.
\<close>

record unicode_tables =
  nfkd :: "string \<Rightarrow> string"
  combining :: "char \<Rightarrow> bool"
  lower :: "string \<Rightarrow> string"
  isspace :: "char \<Rightarrow> bool"

text \<open>
  \<^verbatim>\<open>str.isspace\<close> on ASCII: besides the six characters that \<^verbatim>\<open>int()\<close> strips, the four
  separators 28 to 31.
\<close>

definition py_isspace :: "char \<Rightarrow> bool" where
  "py_isspace c \<longleftrightarrow> (let n = (of_char c :: nat) in (9 \<le> n \<and> n \<le> 13) \<or> (28 \<le> n \<and> n \<le> 32))"

definition ascii_lower :: "char \<Rightarrow> char" where
  "ascii_lower c = (let n = (of_char c :: nat) in if 65 \<le> n \<and> n \<le> 90 then char_of (n + 32) else c)"

definition ascii_tables :: unicode_tables where
  "ascii_tables = \<lparr>nfkd = (\<lambda>s. s), combining = (\<lambda>c. False), lower = map ascii_lower,
                   isspace = py_isspace\<rparr>"

definition normalize_text :: "unicode_tables \<Rightarrow> string \<Rightarrow> string" where
  "normalize_text U text = (let nf = nfkd U text in lower U [c. c \<leftarrow> nf, \<not> combining U c])"

text \<open>
  \<^verbatim>\<open>s.split()\<close>: the maximal runs of characters that are not white space, in order; \<open>cur\<close>
  is the run being read.
\<close>

fun split_acc :: "(char \<Rightarrow> bool) \<Rightarrow> string \<Rightarrow> string \<Rightarrow> string list" where
  "split_acc sp cur [] = (if cur = [] then [] else [cur])"
| "split_acc sp cur (c # cs) =
     (if sp c then (if cur = [] then split_acc sp [] cs else cur # split_acc sp [] cs)
      else split_acc sp (cur @ [c]) cs)"

definition py_split :: "(char \<Rightarrow> bool) \<Rightarrow> string \<Rightarrow> string list" where
  "py_split sp s = split_acc sp [] s"

text \<open>
  The list \<^verbatim>\<open>candidates\<close> of \<^verbatim>\<open>find_hn_usernames\<close>, built from \<^verbatim>\<open>norm\<close> and its tokens.
  Indexing an empty list or an empty string raises IndexError.
\<close>

definition candidates :: "string \<Rightarrow> string list \<Rightarrow> error + string list" where
  "candidates norm tokens =
     (case tokens of
        [] \<Rightarrow> Inl IndexError
      | t # ts \<Rightarrow>
          (let first = t; lst = last tokens
           in case (first, lst) of
                (f0 # _, l0 # _) \<Rightarrow>
                  Inr [first,
                       lst,
                       first @ lst,
                       lst @ first,
                       first @ ''.'' @ lst,
                       first @ ''_'' @ lst,
                       f0 # lst,
                       first @ [l0],
                       [c. c \<leftarrow> norm, c \<noteq> CHR '' '']]
              | _ \<Rightarrow> Inl IndexError))"

subsection \<open>The scraper, its requests and the world outside\<close>

text \<open>
  A request is the URL and the proxy given to \<^verbatim>\<open>session.get\<close>. Its outcome is either an
  exception (from \<^verbatim>\<open>session.get\<close> or from \<^verbatim>\<open>resp.text()\<close>) or a status and a body.
\<close>

record request =
  url :: string
  proxy :: "string option"

datatype outcome = Failed | Response nat string

text \<open>
  What \<^verbatim>\<open>_fetch_hn_details\<close> asks of the parsed page: the text of the first
  \<^verbatim>\<open><a class="hnuser">\<close>, if there is one, and, for a label, whether a \<^verbatim>\<open><td>\<close> starts with
  it (\<open>None\<close> if none does) and the text of the \<^verbatim>\<open><td>\<close> that follows it (\<open>Some None\<close> if
  none follows).
\<close>

record page =
  hnuser :: "string option"
  label_td :: "string \<Rightarrow> string option option"

text \<open>
  Everything the scraper does not decide: the answer to the \<open>n\<close>-th request of the run,
  the \<open>n\<close>-th draw of \<^verbatim>\<open>random.choice\<close> (an index into the list of ports), the HTML parser,
  the environment variables, the Unicode tables, the social links (platform and address) that
  the loop over a detail page's anchors stores, and the first \<^verbatim>\<open>id\<close> parameter of a URL's query (\<^verbatim>\<open>urlparse\<close> may raise).
\<close>

record env =
  net :: "nat \<Rightarrow> request \<Rightarrow> outcome"
  rng :: "nat \<Rightarrow> nat"
  soup :: "string \<Rightarrow> page"
  geonode_user :: "string option"
  geonode_pass :: "string option"
  tables :: unicode_tables
  links_of :: "string \<Rightarrow> (string \<times> string) list"
  query_id :: "string \<Rightarrow> error + string option"

text \<open>
  The mutable state of a \<^verbatim>\<open>YCPeopleScraper\<close>: the cache, the free permits of the semaphore,
  and, for counting, the requests issued so far (oldest first) and the number of random draws.
\<close>

record scraper =
  username_cache :: "string \<rightharpoonup> pydict list"
  semaphore :: nat
  sent :: "request list"
  draws :: nat

definition init_scraper :: "nat \<Rightarrow> scraper" where
  "init_scraper max_concurrency =
     \<lparr>username_cache = Map.empty, semaphore = max_concurrency, sent = [], draws = 0\<rparr>"

definition BASE_URL :: string where
  "BASE_URL = ''https://www.ycombinator.com''"

definition PROXY_HOST :: string where
  "PROXY_HOST = ''proxy.geonode.io''"

definition PROXY_PORTS :: "nat list" where
  "PROXY_PORTS = [9000..<9011]"

text \<open>A string from the environment counts as set when it is there and not empty.\<close>

fun is_set :: "string option \<Rightarrow> bool" where
  "is_set None = False"
| "is_set (Some v) = (v \<noteq> [])"

definition has_creds :: "env \<Rightarrow> bool" where
  "has_creds E \<longleftrightarrow> is_set (geonode_user E) \<and> is_set (geonode_pass E)"

text \<open>How an f-string renders an environment variable.\<close>

fun env_str :: "string option \<Rightarrow> string" where
  "env_str None = ''None''"
| "env_str (Some v) = v"

definition proxy_string :: "env \<Rightarrow> nat \<Rightarrow> string" where
  "proxy_string E port =
     ''http://'' @ env_str (geonode_user E) @ '':'' @ env_str (geonode_pass E) @ ''@''
       @ PROXY_HOST @ '':'' @ digits_of port"

definition get_proxy_url :: "env \<Rightarrow> scraper \<Rightarrow> string option \<times> scraper" where
  "get_proxy_url E s =
     (if \<not> has_creds E then (None, s)
      else (let port = PROXY_PORTS ! (rng E (draws s) mod length PROXY_PORTS)
            in (Some (proxy_string E port), s\<lparr>draws := Suc (draws s)\<rparr>)))"

text \<open>\<^verbatim>\<open>session.get\<close>: the request is recorded and the world answers it.\<close>

definition session_get :: "env \<Rightarrow> request \<Rightarrow> scraper \<Rightarrow> outcome \<times> scraper" where
  "session_get E req s = (net E (length (sent s)) req, s\<lparr>sent := sent s @ [req]\<rparr>)"

subsection \<open>\<^verbatim>\<open>_fetch_hn_details\<close>\<close>

text \<open>\<^verbatim>\<open>needle in text\<close>.\<close>

fun starts_with :: "string \<Rightarrow> string \<Rightarrow> bool" where
  "starts_with [] s = True"
| "starts_with (p # ps) [] = False"
| "starts_with (p # ps) (c # cs) = (p = c \<and> starts_with ps cs)"

fun py_in :: "string \<Rightarrow> string \<Rightarrow> bool" where
  "py_in needle [] = (needle = [])"
| "py_in needle (c # cs) = (starts_with needle (c # cs) \<or> py_in needle cs)"

declare py_in.simps [simp del]

definition trouble_marker :: string where
  "trouble_marker = ''We're having some trouble serving your request''"

definition no_such_user_marker :: string where
  "no_such_user_marker = ''No such user.''"

fun opt_str :: "string option \<Rightarrow> pyval" where
  "opt_str None = PNone"
| "opt_str (Some t) = PStr t"

text \<open>
  The inner function \<^verbatim>\<open>get_value\<close> guards the missing sibling; the lines that read
  \<^verbatim>\<open>about\<close> call \<^verbatim>\<open>get_text\<close> on the sibling without a guard, which raises AttributeError
  when there is none.
\<close>

definition get_value :: "page \<Rightarrow> string \<Rightarrow> string option" where
  "get_value pg label = (case label_td pg label of None \<Rightarrow> None | Some val_td \<Rightarrow> val_td)"

definition parse_details :: "page \<Rightarrow> string \<Rightarrow> error + pydict" where
  "parse_details pg candidate =
     (let username = (case hnuser pg of Some t \<Rightarrow> t | None \<Rightarrow> candidate);
          created = get_value pg ''created:'';
          karma = get_value pg ''karma:''
      in case label_td pg ''about:'' of
           None \<Rightarrow> Inr [(''username'', PStr username), (''created'', opt_str created),
                        (''karma'', opt_str karma), (''about'', PNone)]
         | Some None \<Rightarrow> Inl AttributeError
         | Some (Some about) \<Rightarrow>
             Inr [(''username'', PStr username), (''created'', opt_str created),
                  (''karma'', opt_str karma), (''about'', PStr about)])"

text \<open>
  One pass through the body of the \<^verbatim>\<open>for\<close> loop, after the request: \<^verbatim>\<open>continue\<close>, a
  \<^verbatim>\<open>return\<close>, or an exception that leaves the function.
\<close>

datatype attempt = Continue | Return "pydict option" | Raise error

definition process_response :: "env \<Rightarrow> string \<Rightarrow> outcome \<Rightarrow> attempt" where
  "process_response E candidate out =
     (case out of
        Failed \<Rightarrow> Continue
      | Response status text \<Rightarrow>
          if status \<noteq> 200 then Continue
          else if py_in trouble_marker text then Continue
          else if py_in no_such_user_marker text then Return None
          else (case parse_details (soup E text) candidate of
                  Inl e \<Rightarrow> Raise e
                | Inr d \<Rightarrow> Return (Some d)))"

definition user_url :: "string \<Rightarrow> string" where
  "user_url candidate = ''https://news.ycombinator.com/user?id='' @ candidate"

text \<open>
  \<^verbatim>\<open>for _ in range(attempts)\<close>; the number of attempts is a natural number here, the default
  is 3 and no caller passes another.
\<close>

fun fetch_hn_details :: "env \<Rightarrow> string \<Rightarrow> nat \<Rightarrow> scraper \<Rightarrow> (error + pydict option) \<times> scraper" where
  "fetch_hn_details E candidate 0 s = (Inr None, s)"
| "fetch_hn_details E candidate (Suc n) s =
     (let (prx, s1) = get_proxy_url E s;
          (out, s2) = session_get E \<lparr>url = user_url candidate, proxy = prx\<rparr> s1
      in case process_response E candidate out of
           Continue \<Rightarrow> fetch_hn_details E candidate n s2
         | Return r \<Rightarrow> (Inr r, s2)
         | Raise e \<Rightarrow> (Inl e, s2))"

text \<open>
  For stating what the loop does: an outcome after which the loop goes on to its next
  attempt (an exception, a status other than 200, or the marker of a service error in the
  body), and the proxy that the draw number \<open>k\<close> yields.
\<close>

fun transient :: "outcome \<Rightarrow> bool" where
  "transient Failed = True"
| "transient (Response status text) = (status \<noteq> 200 \<or> py_in trouble_marker text)"

definition proxy_of_draw :: "env \<Rightarrow> nat \<Rightarrow> string option" where
  "proxy_of_draw E k =
     (if has_creds E then Some (proxy_string E (PROXY_PORTS ! (rng E k mod length PROXY_PORTS)))
      else None)"

subsection \<open>\<^verbatim>\<open>find_hn_usernames\<close>\<close>

text \<open>The loop over the candidates; every candidate is looked up, in order.\<close>

fun probe_all :: "env \<Rightarrow> string list \<Rightarrow> pydict list \<Rightarrow> scraper \<Rightarrow> (error + pydict list) \<times> scraper" where
  "probe_all E [] details_list s = (Inr details_list, s)"
| "probe_all E (candidate # rest) details_list s =
     (case fetch_hn_details E candidate 3 s of
        (Inl e, s') \<Rightarrow> (Inl e, s')
      | (Inr None, s') \<Rightarrow> probe_all E rest details_list s'
      | (Inr (Some detail), s') \<Rightarrow> probe_all E rest (details_list @ [detail]) s')"

text \<open>The loop marked \<^verbatim>\<open># dedupe by username\<close>.\<close>

fun dedupe :: "pydict list \<Rightarrow> pyval set \<Rightarrow> pydict list" where
  "dedupe [] seen = []"
| "dedupe (info # rest) seen =
     (let uname = dict_get info ''username'' PNone
      in if truthy uname \<and> uname \<notin> seen then info # dedupe rest (insert uname seen)
         else dedupe rest seen)"

definition find_hn_usernames :: "env \<Rightarrow> string \<Rightarrow> scraper \<Rightarrow> (error + pydict list) \<times> scraper" where
  "find_hn_usernames E full_name s =
     (case username_cache s full_name of
        Some cached \<Rightarrow> (Inr cached, s)
      | None \<Rightarrow>
          (let norm = normalize_text (tables E) full_name;
               tokens = py_split (isspace (tables E)) norm
           in if tokens = [] then (Inr [], s)
              else (case candidates norm tokens of
                      Inl e \<Rightarrow> (Inl e, s)
                    | Inr cands \<Rightarrow>
                        (case probe_all E cands [] s of
                           (Inl e, s') \<Rightarrow> (Inl e, s')
                         | (Inr details_list, s') \<Rightarrow>
                             (let unique = dedupe details_list {}
                              in (Inr unique,
                                  s'\<lparr>username_cache := (username_cache s')(full_name \<mapsto> unique)\<rparr>))))))"

subsection \<open>\<^verbatim>\<open>_enrich_one\<close>\<close>

text \<open>
  The detail page. Any exception between \<^verbatim>\<open>try\<close> and \<^verbatim>\<open>except Exception: pass\<close> leaves
  the links collected so far, which for a failed request are none. A link that is not a
  string makes \<^verbatim>\<open>session.get\<close> raise before a request is sent.
\<close>

definition fetch_social_links :: "env \<Rightarrow> pyval \<Rightarrow> scraper \<Rightarrow> (string \<times> string) list \<times> scraper" where
  "fetch_social_links E link s =
     (if \<not> truthy link then ([], s)
      else (let (prx, s1) = get_proxy_url E s
            in case link of
                 PStr l \<Rightarrow>
                   (let (out, s2) = session_get E \<lparr>url = l, proxy = prx\<rparr> s1
                    in case out of
                         Failed \<Rightarrow> ([], s2)
                       | Response status text \<Rightarrow>
                           if status = 200 then (links_of E text, s2) else ([], s2))
               | _ \<Rightarrow> ([], s1)))"

text \<open>The lines under \<^verbatim>\<open># prioritize explicit HN link\<close>.\<close>

definition explicit_id :: "env \<Rightarrow> (string \<times> string) list \<Rightarrow> error + string option" where
  "explicit_id E links =
     (case map_of links ''yc'' of
        None \<Rightarrow> Inr None
      | Some href \<Rightarrow> query_id E href)"

text \<open>
  The loop over \<^verbatim>\<open>variants\<close>: a variant is appended unless its username is empty or equal to
  \<^verbatim>\<open>main_hn\<close>, the identifier that was looked up.
\<close>

definition other_variants :: "string option \<Rightarrow> pydict list \<Rightarrow> pydict list" where
  "other_variants main_hn variants =
     [info. info \<leftarrow> variants,
            truthy (dict_get info ''username'' PNone) \<and>
            dict_get info ''username'' PNone \<noteq> opt_str main_hn]"

text \<open>\<^verbatim>\<open>person['profile'].update({...})\<close>; a person without the key raises KeyError.\<close>

definition update_profile :: "person \<Rightarrow> (string \<times> string) list \<Rightarrow> pydict list \<Rightarrow> error + person" where
  "update_profile p links hn =
     (case profile p of
        None \<Rightarrow> Inl KeyError
      | Some pr \<Rightarrow>
          Inr (p\<lparr>profile := Some (pr\<lparr>social_links := map (\<lambda>(k, v). (k, PStr v)) links,
                                     hn_profiles := Some hn\<rparr>)\<rparr>))"

definition enrich_one :: "env \<Rightarrow> person \<Rightarrow> scraper \<Rightarrow> (error + person) \<times> scraper" where
  "enrich_one E p s =
     (let (links, s1) = fetch_social_links E (profile_link p) s
      in case explicit_id E links of
           Inl e \<Rightarrow> (Inl e, s1)
         | Inr main_hn \<Rightarrow>
             (case (if is_set main_hn then fetch_hn_details E (env_str main_hn) 3 s1
                    else (Inr None, s1)) of
                (Inl e, s2) \<Rightarrow> (Inl e, s2)
              | (Inr detail, s2) \<Rightarrow>
                  (let hn0 = (case detail of None \<Rightarrow> [] | Some d \<Rightarrow> [d])
                   in case name p of
                        PStr full_name \<Rightarrow>
                          (case find_hn_usernames E full_name s2 of
                             (Inl e, s3) \<Rightarrow> (Inl e, s3)
                           | (Inr variants, s3) \<Rightarrow>
                               (update_profile p links (hn0 @ other_variants main_hn variants), s3))
                      | _ \<Rightarrow> (Inl TypeError, s2))))"

subsection \<open>\<^verbatim>\<open>enrich_profiles\<close>: the tasks on the event loop\<close>

text \<open>
  \<^verbatim>\<open>enrich_profiles\<close> creates one coroutine \<^verbatim>\<open>_enrich_one(p)\<close> per person and hands them all
  to \<^verbatim>\<open>asyncio.as_completed\<close>. The event loop runs one task at a time; a task gives up control
  only where it awaits the network, that is in \<^verbatim>\<open>session.get\<close>. So a task is either not
  yet started, or suspended in a request that is in flight (with the position of that
  request among all requests sent, and with what it will do with the answer), or finished
  with a person or an exception.

  The continuations below are the three places of \<^verbatim>\<open>_enrich_one\<close> that await: the detail
  page, an attempt of \<^verbatim>\<open>_fetch_hn_details(main_hn)\<close> (with the attempts that remain
  after it), and an attempt for a candidate inside \<^verbatim>\<open>find_hn_usernames\<close> (with the
  candidates still to come, the attempts that remain and \<^verbatim>\<open>details_list\<close>). \<open>locals\<close> are
  the variables of \<^verbatim>\<open>_enrich_one\<close> that are alive across the call of
  \<^verbatim>\<open>find_hn_usernames\<close>.
\<close>

record locals =
  l_person :: person
  l_links :: "(string \<times> string) list"
  l_main_hn :: "string option"
  l_hn_profiles :: "pydict list"

datatype cont =
    AfterLink person
  | AfterExplicit person "(string \<times> string) list" string nat
  | AfterCandidate locals string string "string list" nat "pydict list"

datatype task = Ready person | Waiting nat request cont | Finished "error + person"

text \<open>Sending a request and suspending: the same two lines as in \<^verbatim>\<open>_fetch_hn_details\<close>.\<close>

definition issue :: "env \<Rightarrow> string \<Rightarrow> cont \<Rightarrow> scraper \<Rightarrow> task \<times> scraper" where
  "issue E u k s =
     (let (prx, s1) = get_proxy_url E s;
          req = \<lparr>url = u, proxy = prx\<rparr>
      in (Waiting (length (sent s1)) req k, s1\<lparr>sent := sent s1 @ [req]\<rparr>))"

text \<open>The end of \<^verbatim>\<open>_enrich_one\<close>, from the loop over \<^verbatim>\<open>variants\<close> on.\<close>

definition finish :: "locals \<Rightarrow> pydict list \<Rightarrow> scraper \<Rightarrow> task \<times> scraper" where
  "finish L variants s =
     (Finished (update_profile (l_person L) (l_links L)
                  (l_hn_profiles L @ other_variants (l_main_hn L) variants)), s)"

text \<open>
  Inside \<^verbatim>\<open>find_hn_usernames\<close>: the next candidate is looked up, or, after the last one,
  the details are deduplicated and stored in the cache.
\<close>

definition next_candidate ::
  "env \<Rightarrow> locals \<Rightarrow> string \<Rightarrow> string list \<Rightarrow> pydict list \<Rightarrow> scraper \<Rightarrow> task \<times> scraper" where
  "next_candidate E L full_name rest details_list s =
     (case rest of
        [] \<Rightarrow>
          (let unique = dedupe details_list {}
           in finish L unique (s\<lparr>username_cache := (username_cache s)(full_name \<mapsto> unique)\<rparr>))
      | candidate # later \<Rightarrow>
          issue E (user_url candidate) (AfterCandidate L full_name candidate later 2 details_list) s)"

text \<open>
  The call \<^verbatim>\<open>find_hn_usernames(person['name'])\<close> up to its first request: the test of the
  cache and the list of candidates.
\<close>

definition begin_variants :: "env \<Rightarrow> locals \<Rightarrow> scraper \<Rightarrow> task \<times> scraper" where
  "begin_variants E L s =
     (case name (l_person L) of
        PStr full_name \<Rightarrow>
          (case username_cache s full_name of
             Some cached \<Rightarrow> finish L cached s
           | None \<Rightarrow>
               (let norm = normalize_text (tables E) full_name;
                    tokens = py_split (isspace (tables E)) norm
                in if tokens = [] then finish L [] s
                   else (case candidates norm tokens of
                           Inl e \<Rightarrow> (Finished (Inl e), s)
                         | Inr cands \<Rightarrow> next_candidate E L full_name cands [] s)))
      | _ \<Rightarrow> (Finished (Inl TypeError), s))"

text \<open>After the detail page: the explicit identifier, looked up first if there is one.\<close>

definition after_links :: "env \<Rightarrow> person \<Rightarrow> (string \<times> string) list \<Rightarrow> scraper \<Rightarrow> task \<times> scraper" where
  "after_links E p links s =
     (case explicit_id E links of
        Inl e \<Rightarrow> (Finished (Inl e), s)
      | Inr main_hn \<Rightarrow>
          if is_set main_hn
          then issue E (user_url (env_str main_hn)) (AfterExplicit p links (env_str main_hn) 2) s
          else begin_variants E
                 \<lparr>l_person = p, l_links = links, l_main_hn = main_hn, l_hn_profiles = []\<rparr> s)"

text \<open>A task runs from its start to its first request.\<close>

definition start :: "env \<Rightarrow> person \<Rightarrow> scraper \<Rightarrow> task \<times> scraper" where
  "start E p s =
     (if \<not> truthy (profile_link p) then after_links E p [] s
      else (case profile_link p of
              PStr l \<Rightarrow> issue E l (AfterLink p) s
            | _ \<Rightarrow> (let (prx, s1) = get_proxy_url E s in after_links E p [] s1)))"

text \<open>A suspended task receives the answer to its request and runs to its next request.\<close>

fun resume :: "env \<Rightarrow> cont \<Rightarrow> outcome \<Rightarrow> scraper \<Rightarrow> task \<times> scraper" where
  "resume E (AfterLink p) out s =
     after_links E p
       (case out of
          Failed \<Rightarrow> []
        | Response status text \<Rightarrow> if status = 200 then links_of E text else []) s"
| "resume E (AfterExplicit p links main_hn left) out s =
     (case process_response E main_hn out of
        Continue \<Rightarrow>
          (case left of
             0 \<Rightarrow> begin_variants E
                    \<lparr>l_person = p, l_links = links, l_main_hn = Some main_hn, l_hn_profiles = []\<rparr> s
           | Suc n \<Rightarrow> issue E (user_url main_hn) (AfterExplicit p links main_hn n) s)
      | Return detail \<Rightarrow>
          begin_variants E
            \<lparr>l_person = p, l_links = links, l_main_hn = Some main_hn,
             l_hn_profiles = (case detail of None \<Rightarrow> [] | Some d \<Rightarrow> [d])\<rparr> s
      | Raise e \<Rightarrow> (Finished (Inl e), s))"
| "resume E (AfterCandidate L full_name candidate later left details_list) out s =
     (case process_response E candidate out of
        Continue \<Rightarrow>
          (case left of
             0 \<Rightarrow> next_candidate E L full_name later details_list s
           | Suc n \<Rightarrow>
               issue E (user_url candidate)
                 (AfterCandidate L full_name candidate later n details_list) s)
      | Return detail \<Rightarrow>
          next_candidate E L full_name later
            (case detail of None \<Rightarrow> details_list | Some d \<Rightarrow> details_list @ [d]) s
      | Raise e \<Rightarrow> (Finished (Inl e), s))"

text \<open>
  The loop itself: the scraper's state, the tasks, and what \<^verbatim>\<open>enrich_profiles\<close> has collected,
  in the order of completion. The first exception that a task ends with is raised out of
  \<^verbatim>\<open>enrich_profiles\<close> by \<^verbatim>\<open>await coro\<close>, and nothing is collected after it.
\<close>

record loop_state =
  shared :: scraper
  tasks :: "task list"
  enriched :: "person list"
  raised :: "error option"

definition spawn :: "scraper \<Rightarrow> person list \<Rightarrow> loop_state" where
  "spawn s people = \<lparr>shared = s, tasks = map Ready people, enriched = [], raised = None\<rparr>"

fun is_ready :: "task \<Rightarrow> bool" where
  "is_ready (Ready p) = True"
| "is_ready _ = False"

fun is_waiting :: "task \<Rightarrow> bool" where
  "is_waiting (Waiting n req k) = True"
| "is_waiting _ = False"

definition in_flight :: "loop_state \<Rightarrow> nat" where
  "in_flight st = length (filter is_waiting (tasks st))"

definition settle :: "nat \<Rightarrow> task \<times> scraper \<Rightarrow> loop_state \<Rightarrow> loop_state" where
  "settle i ts st =
     st\<lparr>shared := snd ts,
        tasks := (tasks st)[i := fst ts],
        enriched := (case fst ts of Finished (Inr p) \<Rightarrow> enriched st @ [p] | _ \<Rightarrow> enriched st),
        raised := (case fst ts of Finished (Inl e) \<Rightarrow> Some e | _ \<Rightarrow> raised st)\<rparr>"

text \<open>
  One turn of the loop for task \<open>i\<close>, if it can take one. The loop starts every task
  before it delivers any answer; an answer is the world's answer to the request at its
  position.
\<close>

definition fire :: "env \<Rightarrow> nat \<Rightarrow> loop_state \<Rightarrow> loop_state option" where
  "fire E i st =
     (case raised st of
        Some e \<Rightarrow> None
      | None \<Rightarrow>
          if length (tasks st) \<le> i then None
          else (case tasks st ! i of
                  Ready p \<Rightarrow> Some (settle i (start E p (shared st)) st)
                | Waiting n req k \<Rightarrow>
                    if list_ex is_ready (tasks st) then None
                    else Some (settle i (resume E k (net E n req) (shared st)) st)
                | Finished r \<Rightarrow> None))"

inductive loop_step :: "env \<Rightarrow> loop_state \<Rightarrow> loop_state \<Rightarrow> bool" for E where
  turn: "fire E i st = Some st' \<Longrightarrow> loop_step E st st'"

inductive loop_run :: "env \<Rightarrow> loop_state \<Rightarrow> loop_state \<Rightarrow> bool" for E where
  stay: "loop_run E st st"
| go: "loop_step E st st' \<Longrightarrow> loop_run E st' st'' \<Longrightarrow> loop_run E st st''"

text \<open>A schedule names the task of each turn; this runs it.\<close>

fun run_schedule :: "env \<Rightarrow> nat list \<Rightarrow> loop_state \<Rightarrow> loop_state option" where
  "run_schedule E [] st = Some st"
| "run_schedule E (i # sched) st =
     (case fire E i st of None \<Rightarrow> None | Some st' \<Rightarrow> run_schedule E sched st')"

fun is_finished :: "task \<Rightarrow> bool" where
  "is_finished (Finished r) = True"
| "is_finished _ = False"

subsection \<open>A task alone\<close>

text \<open>
  For comparing a task of the loop with the function \<open>enrich_one\<close>: \<open>drive\<close> delivers
  to a single task the answer to its pending request, a given number of times; \<open>solo\<close> is
  the loop with that one task. The other definitions name the remainder of the direct
  functions after a call returns: after \<^verbatim>\<open>_fetch_hn_details\<close>, after the loop over the
  candidates, after the detail page, and from the call of \<^verbatim>\<open>find_hn_usernames\<close> on.
\<close>

fun drive :: "env \<Rightarrow> nat \<Rightarrow> task \<times> scraper \<Rightarrow> task \<times> scraper" where
  "drive E 0 ts = ts"
| "drive E (Suc n) (Waiting idx req k, s) = drive E n (resume E k (net E idx req) s)"
| "drive E (Suc n) (t, s) = (t, s)"

definition after_fetch ::
  "(pydict option \<Rightarrow> scraper \<Rightarrow> task \<times> scraper) \<Rightarrow> (error + pydict option) \<times> scraper \<Rightarrow> task \<times> scraper" where
  "after_fetch done rs =
     (case rs of (Inl e, s) \<Rightarrow> (Finished (Inl e), s) | (Inr detail, s) \<Rightarrow> done detail s)"

definition after_probe ::
  "env \<Rightarrow> locals \<Rightarrow> string \<Rightarrow> (error + pydict list) \<times> scraper \<Rightarrow> task \<times> scraper" where
  "after_probe E L fn rs =
     (case rs of (Inl e, s) \<Rightarrow> (Finished (Inl e), s) | (Inr ds, s) \<Rightarrow> next_candidate E L fn [] ds s)"

definition tail_variants :: "env \<Rightarrow> locals \<Rightarrow> scraper \<Rightarrow> (error + person) \<times> scraper" where
  "tail_variants E L s =
     (case name (l_person L) of
        PStr full_name \<Rightarrow>
          (case find_hn_usernames E full_name s of
             (Inl e, s3) \<Rightarrow> (Inl e, s3)
           | (Inr variants, s3) \<Rightarrow>
               (update_profile (l_person L) (l_links L)
                  (l_hn_profiles L @ other_variants (l_main_hn L) variants), s3))
      | _ \<Rightarrow> (Inl TypeError, s))"

definition tail_links :: "env \<Rightarrow> person \<Rightarrow> (string \<times> string) list \<Rightarrow> scraper \<Rightarrow> (error + person) \<times> scraper" where
  "tail_links E p links s1 =
     (case explicit_id E links of
        Inl e \<Rightarrow> (Inl e, s1)
      | Inr main_hn \<Rightarrow>
          (case (if is_set main_hn then fetch_hn_details E (env_str main_hn) 3 s1
                 else (Inr None, s1)) of
             (Inl e, s2) \<Rightarrow> (Inl e, s2)
           | (Inr detail, s2) \<Rightarrow>
               tail_variants E
                 \<lparr>l_person = p, l_links = links, l_main_hn = main_hn,
                  l_hn_profiles = (case detail of None \<Rightarrow> [] | Some d \<Rightarrow> [d])\<rparr> s2))"

definition solo :: "task \<Rightarrow> scraper \<Rightarrow> loop_state" where
  "solo t s =
     \<lparr>shared = s, tasks = [t],
      enriched = (case t of Finished (Inr p) \<Rightarrow> [p] | _ \<Rightarrow> []),
      raised = (case t of Finished (Inl e) \<Rightarrow> Some e | _ \<Rightarrow> None)\<rparr>"

subsection \<open>Usernames of a list of matches\<close>

text \<open>
  For stating what the deduplication achieves: the usernames of a list of matches, and a
  cache all of whose entries have pairwise different usernames.
\<close>

definition usernames :: "pydict list \<Rightarrow> pyval list" where
  "usernames hn = map (\<lambda>u. dict_get u ''username'' PNone) hn"

definition cache_distinct :: "scraper \<Rightarrow> bool" where
  "cache_distinct s \<longleftrightarrow> (\<forall>k r. username_cache s k = Some r \<longrightarrow> distinct (usernames r))"

subsection \<open>A small world for the examples\<close>

text \<open>
  No proxy credentials, ASCII names, no social links; the answers of the network and the
  parsed page are chosen by each example.
\<close>

definition test_env :: "(nat \<Rightarrow> request \<Rightarrow> outcome) \<Rightarrow> (string \<Rightarrow> page) \<Rightarrow> env" where
  "test_env answers parse =
     \<lparr>net = answers, rng = (\<lambda>k. k), soup = parse, geonode_user = None, geonode_pass = None,
      tables = ascii_tables, links_of = (\<lambda>t. []), query_id = (\<lambda>u. Inr None)\<rparr>"

definition bare_page :: page where
  "bare_page = \<lparr>hnuser = None, label_td = (\<lambda>l. None)\<rparr>"

text \<open>
  A person with a detail page whose \<^verbatim>\<open>yc\<close> link names \<^verbatim>\<open>Alice\<close>, in a world where the lookup
  service shows the user \<^verbatim>\<open>alice\<close> for both \<^verbatim>\<open>Alice\<close> and \<^verbatim>\<open>alice\<close> and knows no other
  candidate.
\<close>

definition alice_env :: env where
  "alice_env =
     \<lparr>net = (\<lambda>n r. if url r = ''https://www.ycombinator.com/people/alice-liddell''
                     then Response 200 ''detail page''
                     else if url r = user_url ''Alice'' \<or> url r = user_url ''alice''
                     then Response 200 ''profile of alice''
                     else Response 200 ''No such user.''),
      rng = (\<lambda>k. k),
      soup = (\<lambda>t. \<lparr>hnuser = Some ''alice'', label_td = (\<lambda>l. None)\<rparr>),
      geonode_user = None, geonode_pass = None, tables = ascii_tables,
      links_of = (\<lambda>t. [(''yc'', ''https://news.ycombinator.com/user?id=Alice'')]),
      query_id = (\<lambda>u. Inr (Some ''Alice''))\<rparr>"

definition alice :: person where
  "alice = \<lparr>name = PStr ''Alice'', title = PStr ''Partner'', category = PStr ''Founders'',
            profile_link = PStr ''https://www.ycombinator.com/people/alice-liddell'',
            profile = Some \<lparr>social_links = [], hn_profiles = Some []\<rparr>\<rparr>"

text \<open>
  A world in which every profile page has a cell \<^verbatim>\<open>about:\<close> that is the last cell of its
  row, and two persons without a detail page.
\<close>

definition lone_about_page :: page where
  "lone_about_page = \<lparr>hnuser = None, label_td = (\<lambda>l. if l = ''about:'' then Some None else None)\<rparr>"

definition about_env :: env where
  "about_env = test_env (\<lambda>n r. Response 200 ''<html>profile</html>'') (\<lambda>t. lone_about_page)"

definition bob :: person where
  "bob = \<lparr>name = PStr ''Bob'', title = PStr ''Partner'', category = PStr ''Founders'',
          profile_link = PNone,
          profile = Some \<lparr>social_links = [], hn_profiles = Some []\<rparr>\<rparr>"

definition jane :: person where
  "jane = \<lparr>name = PStr ''Jane Doe'', title = PStr ''Partner'', category = PStr ''Founders'',
           profile_link = PNone,
           profile = Some \<lparr>social_links = [], hn_profiles = Some []\<rparr>\<rparr>"

text \<open>A world in which the lookup service knows nobody.\<close>

definition nobody_env :: env where
  "nobody_env = test_env (\<lambda>n r. Response 200 ''No such user.'') (\<lambda>t. bare_page)"

section \<open>Properties of table.py\<close>

subsection \<open>The maximum loop\<close>

text \<open>
  When every key is computed without an exception, the loop returns the first item whose key
  is greatest: every item before it has a strictly smaller key, no item after it a greater one.
  When a key raises, the exception of the first such item is the result.
\<close>

lemma max_loop_split:
  assumes "\<forall>u\<in>set us. f u = Inr (g u)"
  shows "(max_loop f best bk us = Inr best \<and> (\<forall>u\<in>set us. g u \<le> bk)) \<or>
         (\<exists>pre r post. us = pre @ r # post \<and> max_loop f best bk us = Inr r \<and> bk < g r \<and>
            (\<forall>v\<in>set pre. g v < g r) \<and> (\<forall>v\<in>set post. g v \<le> g r))"
  using assms
proof (induction us arbitrary: best bk)
  case Nil
  then show ?case by simp
next
  case (Cons v vs)
  have fv: "f v = Inr (g v)" and rest: "\<forall>u\<in>set vs. f u = Inr (g u)"
    using Cons.prems by simp_all
  show ?case
  proof (cases "bk < g v")
    case True
    from Cons.IH [OF rest, of v "g v"] show ?thesis
    proof
      assume a: "max_loop f v (g v) vs = Inr v \<and> (\<forall>u\<in>set vs. g u \<le> g v)"
      have "v # vs = [] @ v # vs" by simp
      with a True fv show ?thesis by (intro disjI2 exI[of _ "[]"] exI[of _ v] exI[of _ vs]) simp
    next
      assume "\<exists>pre r post. vs = pre @ r # post \<and> max_loop f v (g v) vs = Inr r \<and> g v < g r \<and>
            (\<forall>v\<in>set pre. g v < g r) \<and> (\<forall>v\<in>set post. g v \<le> g r)"
      then obtain pre r post where a: "vs = pre @ r # post" "max_loop f v (g v) vs = Inr r" "g v < g r"
            "\<forall>v\<in>set pre. g v < g r" "\<forall>v\<in>set post. g v \<le> g r" by blast
      with True fv show ?thesis
        by (intro disjI2 exI[of _ "v # pre"] exI[of _ r] exI[of _ post]) auto
    qed
  next
    case False
    from Cons.IH [OF rest, of best bk] show ?thesis
    proof
      assume "max_loop f best bk vs = Inr best \<and> (\<forall>u\<in>set vs. g u \<le> bk)"
      with False fv show ?thesis by auto
    next
      assume "\<exists>pre r post. vs = pre @ r # post \<and> max_loop f best bk vs = Inr r \<and> bk < g r \<and>
            (\<forall>v\<in>set pre. g v < g r) \<and> (\<forall>v\<in>set post. g v \<le> g r)"
      then obtain pre r post where a: "vs = pre @ r # post" "max_loop f best bk vs = Inr r" "bk < g r"
            "\<forall>v\<in>set pre. g v < g r" "\<forall>v\<in>set post. g v \<le> g r" by blast
      with False fv show ?thesis
        by (intro disjI2 exI[of _ "v # pre"] exI[of _ r] exI[of _ post]) auto
    qed
  qed
qed

lemma py_max_first_maximum:
  assumes "xs \<noteq> []" and "\<forall>u\<in>set xs. f u = Inr (g u)"
  shows "\<exists>pre r post. xs = pre @ r # post \<and> py_max f xs = Inr r \<and>
            (\<forall>v\<in>set pre. g v < g r) \<and> (\<forall>v\<in>set post. g v \<le> g r)"
proof -
  from assms(1) obtain u us where xs: "xs = u # us" by (cases xs) auto
  have fu: "f u = Inr (g u)" and rest: "\<forall>v\<in>set us. f v = Inr (g v)"
    using assms(2) xs by simp_all
  have pm: "py_max f xs = max_loop f u (g u) us"
    by (simp add: py_max_def xs fu)
  from max_loop_split [OF rest, of u "g u"] show ?thesis
  proof
    assume a: "max_loop f u (g u) us = Inr u \<and> (\<forall>v\<in>set us. g v \<le> g u)"
    with pm xs show ?thesis by (intro exI[of _ "[]"] exI[of _ u] exI[of _ us]) simp
  next
    assume "\<exists>pre r post. us = pre @ r # post \<and> max_loop f u (g u) us = Inr r \<and> g u < g r \<and>
            (\<forall>v\<in>set pre. g v < g r) \<and> (\<forall>v\<in>set post. g v \<le> g r)"
    then obtain pre r post where a: "us = pre @ r # post" "max_loop f u (g u) us = Inr r" "g u < g r"
            "\<forall>v\<in>set pre. g v < g r" "\<forall>v\<in>set post. g v \<le> g r" by blast
    with pm xs show ?thesis
      by (intro exI[of _ "u # pre"] exI[of _ r] exI[of _ post]) auto
  qed
qed

lemma max_loop_first_error:
  assumes "\<forall>v\<in>set pre. \<exists>n. f v = Inr n" and "f u = Inl e"
  shows "max_loop f best bk (pre @ u # post) = Inl e"
  using assms by (induction pre arbitrary: best bk) auto

lemma py_max_first_error:
  assumes "\<forall>v\<in>set pre. \<exists>n. f v = Inr n" and "f u = Inl e"
  shows "py_max f (pre @ u # post) = Inl e"
proof (cases pre)
  case Nil
  with assms show ?thesis by (simp add: py_max_def)
next
  case (Cons p ps)
  with assms(1) obtain n where "f p = Inr n" by auto
  moreover have "\<forall>v\<in>set ps. \<exists>n. f v = Inr n" using assms(1) Cons by simp
  ultimately show ?thesis using Cons assms(2) by (simp add: py_max_def max_loop_first_error)
qed

subsection \<open>Selecting the top match\<close>

lemma karma_examples:
  "karma_key [(''username'', PStr ''a''), (''karma'', PStr ''5'')] = Inr 5"
  "karma_key [(''username'', PStr ''b'')] = Inr 0"
  "karma_key [(''username'', PStr ''c''), (''karma'', PStr ''12'')] = Inr 12"
  "karma_key [(''username'', PStr ''d''), (''karma'', PStr ''12'')] = Inr 12"
  "karma_key [(''username'', PStr ''b''), (''karma'', PStr ''n/a'')] = Inl ValueError"
  "karma_key [(''username'', PStr ''b''), (''karma'', PNone)] = Inl TypeError"
  "karma_key [(''username'', PStr ''a''), (''karma'', PStr ''-3'')] = Inr (-3)"
  by code_simp+

text \<open>
  C1, as the code has it. For a profile with at least one match: when the karma of every
  match converts to an integer (a match without the key \<^verbatim>\<open>karma\<close> counts as 0), the selected
  record is the first-seen match of greatest karma, that is, every earlier match has a strictly
  smaller karma and no later match a greater one. When the first karma that does not convert is
  an unparseable string, no record is selected at all.
\<close>

theorem get_top_username_selection:
  assumes "hn_profiles prof = Some hn" and "hn \<noteq> []"
  shows "((\<forall>u\<in>set hn. karma_key u = Inr (k u)) \<longrightarrow>
            (\<exists>pre r post. hn = pre @ r # post \<and>
               get_top_username prof = Inr (Some r) \<and>
               (\<forall>v\<in>set pre. k v < k r) \<and> (\<forall>v\<in>set post. k v \<le> k r))) \<and>
         (\<forall>pre u post. hn = pre @ u # post \<and> (\<forall>v\<in>set pre. \<exists>n. karma_key v = Inr n) \<and>
               karma_key u = Inl ValueError \<longrightarrow>
               get_top_username prof = Inr None)"
proof (intro conjI impI allI)
  assume ok: "\<forall>u\<in>set hn. karma_key u = Inr (k u)"
  from py_max_first_maximum [OF assms(2) ok]
  obtain pre r post where s: "hn = pre @ r # post" "py_max karma_key hn = Inr r"
    "\<forall>v\<in>set pre. k v < k r" "\<forall>v\<in>set post. k v \<le> k r" by blast
  from assms s(2) have "get_top_username prof = Inr (Some r)"
    by (simp add: get_top_username_def)
  with s show "\<exists>pre r post. hn = pre @ r # post \<and>
               get_top_username prof = Inr (Some r) \<and>
               (\<forall>v\<in>set pre. k v < k r) \<and> (\<forall>v\<in>set post. k v \<le> k r)" by blast
next
  fix pre u post
  assume a: "hn = pre @ u # post \<and> (\<forall>v\<in>set pre. \<exists>n. karma_key v = Inr n) \<and>
               karma_key u = Inl ValueError"
  then have "py_max karma_key hn = Inl ValueError"
    by (simp add: py_max_first_error)
  with assms show "get_top_username prof = Inr None"
    by (simp add: get_top_username_def)
qed

text \<open>
  The theorem at the scores \<open>5, (no key), 12, 12\<close>, and at \<open>5, n/a, 12\<close>.
\<close>

theorem get_top_username_selection_witness:
  "list_all (\<lambda>u. karma_key u = Inr (case karma_key u of Inr n \<Rightarrow> n | Inl e \<Rightarrow> 0))
      [[(''username'', PStr ''a''), (''karma'', PStr ''5'')],
       [(''username'', PStr ''b'')],
       [(''username'', PStr ''c''), (''karma'', PStr ''12'')],
       [(''username'', PStr ''d''), (''karma'', PStr ''12'')]] \<and>
   (\<exists>pre r post.
      [[(''username'', PStr ''a''), (''karma'', PStr ''5'')],
       [(''username'', PStr ''b'')],
       [(''username'', PStr ''c''), (''karma'', PStr ''12'')],
       [(''username'', PStr ''d''), (''karma'', PStr ''12'')]] = pre @ r # post \<and>
      get_top_username \<lparr>social_links = [], hn_profiles = Some
        [[(''username'', PStr ''a''), (''karma'', PStr ''5'')],
         [(''username'', PStr ''b'')],
         [(''username'', PStr ''c''), (''karma'', PStr ''12'')],
         [(''username'', PStr ''d''), (''karma'', PStr ''12'')]]\<rparr> = Inr (Some r) \<and>
      karma_key r = Inr 12 \<and>
      list_all (\<lambda>v. \<exists>n. karma_key v = Inr n \<and> n < 12) pre \<and>
      list_all (\<lambda>v. \<exists>n. karma_key v = Inr n \<and> n \<le> 12) post) \<and>
   karma_key [(''username'', PStr ''a''), (''karma'', PStr ''5'')] = Inr 5 \<and>
   karma_key [(''username'', PStr ''b''), (''karma'', PStr ''n/a'')] = Inl ValueError \<and>
   get_top_username \<lparr>social_links = [], hn_profiles = Some
      [[(''username'', PStr ''a''), (''karma'', PStr ''5'')],
       [(''username'', PStr ''b''), (''karma'', PStr ''n/a'')],
       [(''username'', PStr ''c''), (''karma'', PStr ''12'')]]\<rparr> = Inr None"
proof -
  let ?a = "[(''username'', PStr ''a''), (''karma'', PStr ''5'')]"
  let ?b = "[(''username'', PStr ''b'')]"
  let ?c = "[(''username'', PStr ''c''), (''karma'', PStr ''12'')]"
  let ?d = "[(''username'', PStr ''d''), (''karma'', PStr ''12'')]"
  let ?hn = "[?a, ?b, ?c, ?d]"
  let ?k = "\<lambda>u. case karma_key u of Inr n \<Rightarrow> n | Inl e \<Rightarrow> 0"
  let ?pre = "[?a]"
  let ?u = "[(''username'', PStr ''b''), (''karma'', PStr ''n/a'')]"
  let ?post = "[?c]"
  have pr: "hn_profiles \<lparr>social_links = [], hn_profiles = Some ?hn\<rparr> = Some ?hn" by simp
  have pr2: "hn_profiles \<lparr>social_links = [], hn_profiles = Some (?pre @ ?u # ?post)\<rparr>
               = Some (?pre @ ?u # ?post)" by simp
  have ne: "?hn \<noteq> []" by simp
  have ok: "\<forall>u\<in>set ?hn. karma_key u = Inr (?k u)" by (simp add: karma_examples)
  have ne2: "?pre @ ?u # ?post \<noteq> []" by simp
  have pre: "\<forall>v\<in>set ?pre. \<exists>n. karma_key v = Inr n" by (simp add: karma_examples)
  have bad: "karma_key ?u = Inl ValueError" by (simp add: karma_examples)
  from get_top_username_selection [OF pr ne, of ?k] ok
  obtain p r q where 1: "?hn = p @ r # q"
    "get_top_username \<lparr>social_links = [], hn_profiles = Some ?hn\<rparr> = Inr (Some r)"
    "\<forall>v\<in>set p. ?k v < ?k r" "\<forall>v\<in>set q. ?k v \<le> ?k r" by blast
  have mem: "set p \<union> {r} \<union> set q = set ?hn"
    by (simp only: 1(1)) auto
  have allk: "\<forall>v\<in>set ?hn. karma_key v = Inr (?k v) \<and> ?k v \<le> 12"
    by (simp add: karma_examples)
  have cmem: "?c \<in> set p \<union> {r} \<union> set q"
    unfolding mem by simp
  have kc: "?k ?c = 12" by (simp add: karma_examples)
  have "12 \<le> ?k r"
    using cmem 1(3,4) kc by (metis (no_types, lifting) Un_iff empty_iff insert_iff less_imp_le order_refl)
  moreover have rk: "karma_key r = Inr (?k r) \<and> ?k r \<le> 12"
    using allk mem by blast
  ultimately have r12: "karma_key r = Inr 12" and kr: "?k r = 12" by auto
  have "list_all (\<lambda>v. \<exists>n. karma_key v = Inr n \<and> n < 12) p"
    unfolding list_all_iff using 1(3) allk mem kr by (metis (no_types, lifting) UnCI)
  moreover have "list_all (\<lambda>v. \<exists>n. karma_key v = Inr n \<and> n \<le> 12) q"
    unfolding list_all_iff using allk mem by (metis (no_types, lifting) UnCI)
  ultimately have first: "\<exists>pre r post. ?hn = pre @ r # post \<and>
      get_top_username \<lparr>social_links = [], hn_profiles = Some ?hn\<rparr> = Inr (Some r) \<and>
      karma_key r = Inr 12 \<and>
      list_all (\<lambda>v. \<exists>n. karma_key v = Inr n \<and> n < 12) pre \<and>
      list_all (\<lambda>v. \<exists>n. karma_key v = Inr n \<and> n \<le> 12) post"
    using 1(1,2) r12 by blast
  from get_top_username_selection [OF pr2 ne2, of undefined] pre bad
  have 2: "get_top_username \<lparr>social_links = [], hn_profiles = Some (?pre @ ?u # ?post)\<rparr> = Inr None"
    by blast
  have l: "list_all (\<lambda>u. karma_key u = Inr (?k u)) ?hn"
    using ok by (simp add: list_all_iff)
  from l first 2 show ?thesis
    by (simp add: karma_examples)
qed

text \<open>
  The claim as the specification words it fails: with the scores \<open>5, None, 12, 12\<close> the
  conversion of \<^verbatim>\<open>None\<close> raises TypeError, which the handler for ValueError does not
  catch; an unparseable score does not sort below the numbers but empties the selection; and a
  match without a score counts as 0, above a negative score.
\<close>

theorem get_top_username_counterexample:
  "get_top_username \<lparr>social_links = [], hn_profiles = Some
       [[(''username'', PStr ''a''), (''karma'', PStr ''5'')],
        [(''username'', PStr ''b''), (''karma'', PNone)],
        [(''username'', PStr ''c''), (''karma'', PStr ''12'')],
        [(''username'', PStr ''d''), (''karma'', PStr ''12'')]]\<rparr> = Inl TypeError \<and>
   get_top_username \<lparr>social_links = [], hn_profiles = Some
       [[(''username'', PStr ''a''), (''karma'', PStr ''5'')],
        [(''username'', PStr ''b''), (''karma'', PStr ''n/a'')],
        [(''username'', PStr ''c''), (''karma'', PStr ''12'')]]\<rparr> = Inr None \<and>
   get_top_username \<lparr>social_links = [], hn_profiles = Some
       [[(''username'', PStr ''a''), (''karma'', PStr ''-3'')],
        [(''username'', PStr ''b'')]]\<rparr> = Inr (Some [(''username'', PStr ''b'')])"
  by (simp add: get_top_username_def py_max_def karma_examples)

subsection \<open>The exported rows\<close>

lemma export_loop_rows:
  assumes "snd (export_loop written ps) = None"
  shows "fst (export_loop written ps) = written @ concat (map rows_for ps)"
  using assms
proof (induction ps arbitrary: written)
  case Nil
  then show ?case by simp
next
  case (Cons p ps)
  show ?case
  proof (cases "get_top_username (person_profile p)")
    case (Inl e)
    with Cons.prems show ?thesis by simp
  next
    case (Inr top)
    show ?thesis
    proof (cases top)
      case None
      with Inr Cons show ?thesis by (simp add: rows_for_def)
    next
      case (Some u)
      with Inr Cons show ?thesis by (cases "u = []") (simp_all add: rows_for_def)
    qed
  qed
qed

lemma export_example:
  "export_to_csv
     [\<lparr>name = PStr ''Ann Lee'', title = PStr ''Partner'', category = PStr ''Founders'',
       profile_link = PNone, profile = Some \<lparr>social_links = [], hn_profiles = Some
          [[(''username'', PStr ''ann''), (''created'', PStr ''May 1, 2010''),
            (''karma'', PStr ''7''), (''about'', PNone)]]\<rparr>\<rparr>,
      \<lparr>name = PStr ''Cy Orr'', title = PStr ''Partner'', category = PStr ''Founders'',
       profile_link = PNone, profile = Some \<lparr>social_links = [], hn_profiles = Some [[(''karma'', PStr ''3'')]]\<rparr>\<rparr>] =
   ([\<lparr>Name = PStr ''Ann Lee'', Title = PStr ''Partner'', Category = PStr ''Founders'',
      HN_Username = PStr ''ann'', Email = ''ann@ycombinator.com'', Created = PStr ''May 1, 2010'',
      Karma = PStr ''7'', About = PNone\<rparr>,
     \<lparr>Name = PStr ''Cy Orr'', Title = PStr ''Partner'', Category = PStr ''Founders'',
      HN_Username = PNone, Email = [], Created = PNone,
      Karma = PStr ''3'', About = PNone\<rparr>], None)"
  by code_simp

text \<open>
  C9, as the code has it. When the export runs to its end, the rows written are, in the order
  of the input, one flat record for every person whose top match is a non-empty dictionary and
  none for the other persons. The record carries the person's name, title and category and the
  match's username, creation date, karma and bio; its email is the username followed by
  \<^verbatim>\<open>@ycombinator.com\<close> when the username is present and non-empty, and the empty string
  otherwise.
\<close>

theorem export_to_csv_records:
  assumes "snd (export_to_csv users) = None"
  shows "fst (export_to_csv users) =
           concat (map (\<lambda>p. case get_top_username (person_profile p) of
                          Inr (Some u) \<Rightarrow>
                            if u = [] then []
                            else [\<lparr>Name = name p, Title = title p, Category = category p,
                                   HN_Username = dict_get u ''username'' PNone,
                                   Email = (if truthy (dict_get u ''username'' PNone)
                                            then py_str (dict_get u ''username'' PNone) @ ''@ycombinator.com''
                                            else []),
                                   Created = dict_get u ''created'' PNone,
                                   Karma = dict_get u ''karma'' PNone,
                                   About = dict_get u ''about'' PNone\<rparr>]
                        | _ \<Rightarrow> []) users)"
proof -
  have "rows_for = (\<lambda>p. case get_top_username (person_profile p) of
                          Inr (Some u) \<Rightarrow>
                            if u = [] then []
                            else [\<lparr>Name = name p, Title = title p, Category = category p,
                                   HN_Username = dict_get u ''username'' PNone,
                                   Email = (if truthy (dict_get u ''username'' PNone)
                                            then py_str (dict_get u ''username'' PNone) @ ''@ycombinator.com''
                                            else []),
                                   Created = dict_get u ''created'' PNone,
                                   Karma = dict_get u ''karma'' PNone,
                                   About = dict_get u ''about'' PNone\<rparr>]
                        | _ \<Rightarrow> [])"
    by (rule ext) (simp add: rows_for_def make_row_def make_email_def Let_def split: sum.splits option.splits)
  with export_loop_rows [of "[]" users] assms show ?thesis
    by (simp add: export_to_csv_def)
qed

theorem export_to_csv_records_witness:
  "snd (export_to_csv
     [\<lparr>name = PStr ''Ann Lee'', title = PStr ''Partner'', category = PStr ''Founders'',
       profile_link = PNone, profile = Some \<lparr>social_links = [], hn_profiles = Some
          [[(''username'', PStr ''ann''), (''created'', PStr ''May 1, 2010''),
            (''karma'', PStr ''7''), (''about'', PNone)]]\<rparr>\<rparr>,
      \<lparr>name = PStr ''Cy Orr'', title = PStr ''Partner'', category = PStr ''Founders'',
       profile_link = PNone, profile = Some \<lparr>social_links = [], hn_profiles = Some [[(''karma'', PStr ''3'')]]\<rparr>\<rparr>]) = None \<and>
   fst (export_to_csv
     [\<lparr>name = PStr ''Ann Lee'', title = PStr ''Partner'', category = PStr ''Founders'',
       profile_link = PNone, profile = Some \<lparr>social_links = [], hn_profiles = Some
          [[(''username'', PStr ''ann''), (''created'', PStr ''May 1, 2010''),
            (''karma'', PStr ''7''), (''about'', PNone)]]\<rparr>\<rparr>,
      \<lparr>name = PStr ''Cy Orr'', title = PStr ''Partner'', category = PStr ''Founders'',
       profile_link = PNone, profile = Some \<lparr>social_links = [], hn_profiles = Some [[(''karma'', PStr ''3'')]]\<rparr>\<rparr>]) =
   [\<lparr>Name = PStr ''Ann Lee'', Title = PStr ''Partner'', Category = PStr ''Founders'',
      HN_Username = PStr ''ann'', Email = ''ann@ycombinator.com'', Created = PStr ''May 1, 2010'',
      Karma = PStr ''7'', About = PNone\<rparr>,
     \<lparr>Name = PStr ''Cy Orr'', Title = PStr ''Partner'', Category = PStr ''Founders'',
      HN_Username = PNone, Email = [], Created = PNone,
      Karma = PStr ''3'', About = PNone\<rparr>]"
proof -
  let ?users = "[\<lparr>name = PStr ''Ann Lee'', title = PStr ''Partner'', category = PStr ''Founders'',
       profile_link = PNone, profile = Some \<lparr>social_links = [], hn_profiles = Some
          [[(''username'', PStr ''ann''), (''created'', PStr ''May 1, 2010''),
            (''karma'', PStr ''7''), (''about'', PNone)]]\<rparr>\<rparr>,
      \<lparr>name = PStr ''Cy Orr'', title = PStr ''Partner'', category = PStr ''Founders'',
       profile_link = PNone, profile = Some \<lparr>social_links = [], hn_profiles = Some [[(''karma'', PStr ''3'')]]\<rparr>\<rparr>]"
  have h: "snd (export_to_csv ?users) = None"
    by (simp add: export_example)
  from export_to_csv_records [OF h] h show ?thesis
    by (simp add: export_example)
qed

text \<open>
  The claim as the specification words it fails: a person without any match is given to the
  export and no record is written for it.
\<close>

theorem export_to_csv_counterexample:
  "export_to_csv
     [\<lparr>name = PStr ''Bo Ray'', title = PStr ''Partner'', category = PStr ''Founders'',
       profile_link = PNone, profile = Some \<lparr>social_links = [], hn_profiles = Some []\<rparr>\<rparr>] = ([], None)"
  by (simp add: export_to_csv_def get_top_username_def person_profile_def)

subsection \<open>Filtering by category\<close>

text \<open>
  C10. Filtering with no category returns the input list unchanged; filtering with a
  category \<open>c\<close> returns exactly the records whose category field is the string \<open>c\<close>, in the
  order of the input.
\<close>

theorem get_users_by_category_filter:
  "get_users_by_category data None = data \<and>
   get_users_by_category data (Some c) = filter (\<lambda>p. category p = PStr c) data"
proof -
  have eq: "eq_str v c \<longleftrightarrow> v = PStr c" for v
    by (cases v) auto
  have "[p. p \<leftarrow> data, eq_str (category p) c] = filter (\<lambda>p. category p = PStr c) data"
    by (induction data) (simp_all add: eq)
  then show ?thesis by simp
qed

section \<open>Properties of yc.py\<close>

subsection \<open>The candidate list\<close>

text \<open>Every token of \<^verbatim>\<open>split()\<close> is non-empty, and the tokens together are the text without its white space.\<close>

lemma split_acc_nonempty: "t \<in> set (split_acc sp cur s) \<Longrightarrow> t \<noteq> []"
  by (induction s arbitrary: cur) (auto split: if_splits)

lemma split_acc_concat: "concat (split_acc sp cur s) = cur @ [c. c \<leftarrow> s, \<not> sp c]"
  by (induction s arbitrary: cur) auto

lemma py_split_nonempty: "t \<in> set (py_split sp s) \<Longrightarrow> t \<noteq> []"
  by (auto simp: py_split_def dest: split_acc_nonempty)

lemma py_split_concat: "concat (py_split sp s) = [c. c \<leftarrow> s, \<not> sp c]"
  by (simp add: py_split_def split_acc_concat)

text \<open>
  C3, as the code has it. For a display name with at least one token, the candidate list is
  built from the lower-cased, mark-stripped name and consists of the nine forms first, last,
  first+last, last+first, first.last, first_last, first[0]+last, first+last[0] and the name
  without its spaces, in this order and with nothing removed: no index raises, and a form
  that occurs twice stays twice. The ninth form is the concatenation of all tokens when the
  space is the only white space of the normalized name.
\<close>

theorem candidates_nine_forms:
  assumes "norm = normalize_text U full_name" and "tokens = py_split (isspace U) norm"
    and "tokens \<noteq> []"
  shows "hd tokens \<noteq> [] \<and> last tokens \<noteq> [] \<and>
         candidates norm tokens =
           Inr [hd tokens,
                last tokens,
                hd tokens @ last tokens,
                last tokens @ hd tokens,
                hd tokens @ ''.'' @ last tokens,
                hd tokens @ ''_'' @ last tokens,
                hd (hd tokens) # last tokens,
                hd tokens @ [hd (last tokens)],
                [c. c \<leftarrow> norm, c \<noteq> CHR '' '']] \<and>
         ((\<forall>c\<in>set norm. isspace U c \<longleftrightarrow> c = CHR '' '') \<longrightarrow>
            [c. c \<leftarrow> norm, c \<noteq> CHR '' ''] = concat tokens)"
proof -
  from assms(3) obtain t ts where tk: "tokens = t # ts" by (cases tokens) auto
  have "hd tokens \<in> set tokens" and "last tokens \<in> set tokens"
    using assms(3) by simp_all
  then have ne: "hd tokens \<noteq> []" "last tokens \<noteq> []"
    using assms(2) py_split_nonempty by blast+
  then obtain f0 fs l0 ls where f: "hd tokens = f0 # fs" and l: "last tokens = l0 # ls"
    by (metis list.exhaust)
  have c: "candidates norm tokens =
             Inr [hd tokens, last tokens, hd tokens @ last tokens, last tokens @ hd tokens,
                  hd tokens @ ''.'' @ last tokens, hd tokens @ ''_'' @ last tokens,
                  hd (hd tokens) # last tokens, hd tokens @ [hd (last tokens)],
                  [c. c \<leftarrow> norm, c \<noteq> CHR '' '']]"
    using f l tk by (simp add: candidates_def Let_def)
  have "[c. c \<leftarrow> norm, c \<noteq> CHR '' ''] = concat tokens"
    if "\<forall>c\<in>set norm. isspace U c \<longleftrightarrow> c = CHR '' ''"
  proof -
    have "[c. c \<leftarrow> norm, c \<noteq> CHR '' ''] = [c. c \<leftarrow> norm, \<not> isspace U c]"
      using that by (induction norm) auto
    then show ?thesis by (simp add: assms(2) py_split_concat)
  qed
  with c ne show ?thesis by blast
qed

lemma jane_doe_norm: "normalize_text ascii_tables ''Jane Doe'' = ''jane doe''"
  by code_simp

lemma jane_doe_tokens: "py_split (isspace ascii_tables) ''jane doe'' = [''jane'', ''doe'']"
  by code_simp

theorem candidates_nine_forms_witness:
  "py_split (isspace ascii_tables) (normalize_text ascii_tables ''Jane Doe'') \<noteq> [] \<and>
   list_all (\<lambda>c. isspace ascii_tables c \<longleftrightarrow> c = CHR '' '')
     (normalize_text ascii_tables ''Jane Doe'') \<and>
   candidates (normalize_text ascii_tables ''Jane Doe'')
     (py_split (isspace ascii_tables) (normalize_text ascii_tables ''Jane Doe'')) =
     Inr [''jane'', ''doe'', ''jane'' @ ''doe'', ''doe'' @ ''jane'', ''jane'' @ ''.'' @ ''doe'',
          ''jane'' @ ''_'' @ ''doe'', CHR ''j'' # ''doe'', ''jane'' @ [CHR ''d''],
          concat [''jane'', ''doe'']]"
proof -
  let ?norm = "normalize_text ascii_tables ''Jane Doe''"
  let ?tokens = "py_split (isspace ascii_tables) ?norm"
  have ne: "?tokens \<noteq> []"
    by (simp add: jane_doe_norm jane_doe_tokens)
  have sp: "\<forall>c\<in>set ?norm. isspace ascii_tables c \<longleftrightarrow> c = CHR '' ''"
    unfolding jane_doe_norm by (simp add: ascii_tables_def py_isspace_def)
  from candidates_nine_forms [OF refl refl ne] sp ne show ?thesis
    by (simp add: jane_doe_norm jane_doe_tokens list_all_iff)
qed

text \<open>
  The claim as the specification words it fails: for \<^verbatim>\<open>Jane Doe\<close> the candidate
  \<^verbatim>\<open>janedoe\<close> is third and ninth in the list, and both occurrences are looked up. Here every
  lookup is answered at once with a profile page, so the requests sent are one per candidate.
\<close>

theorem candidates_not_deduplicated_counterexample:
  "candidates (normalize_text ascii_tables ''Jane Doe'')
     (py_split (isspace ascii_tables) (normalize_text ascii_tables ''Jane Doe'')) =
     Inr [''jane'', ''doe'', ''janedoe'', ''doejane'', ''jane.doe'', ''jane_doe'', ''jdoe'',
          ''janed'', ''janedoe''] \<and>
   map url (sent (snd (find_hn_usernames
       (test_env (\<lambda>n r. Response 200 ''<html>profile</html>'') (\<lambda>t. bare_page))
       ''Jane Doe'' (init_scraper 10)))) =
     [''https://news.ycombinator.com/user?id=jane'',
      ''https://news.ycombinator.com/user?id=doe'',
      ''https://news.ycombinator.com/user?id=janedoe'',
      ''https://news.ycombinator.com/user?id=doejane'',
      ''https://news.ycombinator.com/user?id=jane.doe'',
      ''https://news.ycombinator.com/user?id=jane_doe'',
      ''https://news.ycombinator.com/user?id=jdoe'',
      ''https://news.ycombinator.com/user?id=janed'',
      ''https://news.ycombinator.com/user?id=janedoe'']"
  by code_simp

subsection \<open>One candidate: \<^verbatim>\<open>_fetch_hn_details\<close>\<close>

lemma get_proxy_url_eq:
  "get_proxy_url E s = (proxy_of_draw E (draws s), s\<lparr>draws := (if has_creds E then Suc (draws s) else draws s)\<rparr>)"
  by (simp add: get_proxy_url_def proxy_of_draw_def Let_def)

lemma process_response_transient:
  "transient out \<Longrightarrow> process_response E candidate out = Continue"
  by (cases out) (auto simp: process_response_def)

lemma fetch_unfold:
  "fetch_hn_details E c (Suc n) s =
     (case process_response E c
             (fst (session_get E \<lparr>url = user_url c, proxy = fst (get_proxy_url E s)\<rparr> (snd (get_proxy_url E s)))) of
        Continue \<Rightarrow> fetch_hn_details E c n
                      (snd (session_get E \<lparr>url = user_url c, proxy = fst (get_proxy_url E s)\<rparr> (snd (get_proxy_url E s))))
      | Return r \<Rightarrow> (Inr r, snd (session_get E \<lparr>url = user_url c, proxy = fst (get_proxy_url E s)\<rparr> (snd (get_proxy_url E s))))
      | Raise e \<Rightarrow> (Inl e, snd (session_get E \<lparr>url = user_url c, proxy = fst (get_proxy_url E s)\<rparr> (snd (get_proxy_url E s)))))"
  by (simp add: Let_def case_prod_beta)

lemma fetch_hn_details_all_transient:
  assumes "\<forall>i<attempts. transient (net E (length (sent s) + i)
              \<lparr>url = user_url candidate, proxy = proxy_of_draw E (draws s + i)\<rparr>)"
  shows "fetch_hn_details E candidate attempts s =
           (Inr None,
            s\<lparr>draws := (if has_creds E then draws s + attempts else draws s),
              sent := sent s @ map (\<lambda>i. \<lparr>url = user_url candidate,
                        proxy = proxy_of_draw E (draws s + i)\<rparr>) [0..<attempts]\<rparr>)"
  using assms
proof (induction attempts arbitrary: s)
  case 0
  then show ?case by simp
next
  case (Suc n)
  let ?req = "\<lparr>url = user_url candidate, proxy = proxy_of_draw E (draws s)\<rparr>"
  let ?s2 = "s\<lparr>draws := (if has_creds E then Suc (draws s) else draws s), sent := sent s @ [?req]\<rparr>"
  from Suc.prems have "transient (net E (length (sent s) + 0)
              \<lparr>url = user_url candidate, proxy = proxy_of_draw E (draws s + 0)\<rparr>)"
    by blast
  then have first: "transient (net E (length (sent s)) ?req)"
    by simp
  have step: "fetch_hn_details E candidate (Suc n) s = fetch_hn_details E candidate n ?s2"
    using process_response_transient [OF first]
    by (simp add: get_proxy_url_eq session_get_def)
  have shift: "proxy_of_draw E (draws ?s2 + i) = proxy_of_draw E (draws s + Suc i)" for i
    by (simp add: proxy_of_draw_def)
  have later: "\<forall>i<n. transient (net E (length (sent ?s2) + i)
              \<lparr>url = user_url candidate, proxy = proxy_of_draw E (draws ?s2 + i)\<rparr>)"
  proof (intro allI impI)
    fix i assume "i < n"
    then have "Suc i < Suc n" by simp
    with Suc.prems have "transient (net E (length (sent s) + Suc i)
              \<lparr>url = user_url candidate, proxy = proxy_of_draw E (draws s + Suc i)\<rparr>)"
      by blast
    then show "transient (net E (length (sent ?s2) + i)
              \<lparr>url = user_url candidate, proxy = proxy_of_draw E (draws ?s2 + i)\<rparr>)"
      unfolding shift by simp
  qed
  have m: "[0..<Suc n] = 0 # map Suc [0..<n]"
    by (simp add: upt_conv_Cons map_Suc_upt del: upt_Suc)
  show ?case
    unfolding step Suc.IH [OF later] m shift
    by (simp add: comp_def)
qed

lemma trouble_examples:
  "py_in trouble_marker ''We're having some trouble serving your request. Sorry!''"
  "py_in trouble_marker ''We're having some trouble serving your request. No such user.''"
  "py_in no_such_user_marker ''We're having some trouble serving your request. No such user.''"
  "py_in no_such_user_marker ''No such user.''"
  "\<not> py_in trouble_marker ''No such user.''"
  by code_simp+

text \<open>
  C7, as the code has it. When the answer to an attempt has status 200, does not contain the
  marker of a service error and contains \<^verbatim>\<open>No such user.\<close>, the function returns \<^verbatim>\<open>None\<close>
  after this one request, however many attempts remain.
\<close>

theorem fetch_hn_details_not_found:
  assumes "net E (length (sent s)) \<lparr>url = user_url candidate, proxy = proxy_of_draw E (draws s)\<rparr>
             = Response 200 text"
    and "py_in no_such_user_marker text" and "\<not> py_in trouble_marker text"
  shows "fst (fetch_hn_details E candidate (Suc n) s) = Inr None \<and>
         sent (snd (fetch_hn_details E candidate (Suc n) s)) =
           sent s @ [\<lparr>url = user_url candidate, proxy = proxy_of_draw E (draws s)\<rparr>]"
  using assms
  by (simp add: get_proxy_url_eq session_get_def process_response_def)

theorem fetch_hn_details_not_found_witness:
  "net (test_env (\<lambda>n r. Response 200 ''No such user.'') (\<lambda>t. bare_page))
       (length (sent (init_scraper 10)))
       \<lparr>url = user_url ''jane'',
          proxy = proxy_of_draw (test_env (\<lambda>n r. Response 200 ''No such user.'') (\<lambda>t. bare_page))
                    (draws (init_scraper 10))\<rparr> = Response 200 ''No such user.'' \<and>
   py_in no_such_user_marker ''No such user.'' \<and> \<not> py_in trouble_marker ''No such user.'' \<and>
   fst (fetch_hn_details (test_env (\<lambda>n r. Response 200 ''No such user.'') (\<lambda>t. bare_page))
          ''jane'' 3 (init_scraper 10)) = Inr None \<and>
   length (sent (snd (fetch_hn_details (test_env (\<lambda>n r. Response 200 ''No such user.'') (\<lambda>t. bare_page))
          ''jane'' 3 (init_scraper 10)))) = 1"
proof -
  let ?E = "test_env (\<lambda>n r. Response 200 ''No such user.'') (\<lambda>t. bare_page)"
  have h: "net ?E (length (sent (init_scraper 10)))
             \<lparr>url = user_url ''jane'', proxy = proxy_of_draw ?E (draws (init_scraper 10))\<rparr>
           = Response 200 ''No such user.''"
    by (simp add: test_env_def)
  have three: "(3::nat) = Suc 2" by simp
  from fetch_hn_details_not_found [OF h trouble_examples(4) trouble_examples(5), of 2]
  show ?thesis
    unfolding three using h trouble_examples(4) trouble_examples(5)
    by (simp add: init_scraper_def)
qed

text \<open>
  The claim as the specification words it fails: an answer that contains \<^verbatim>\<open>No such user.\<close>
  is retried when it also contains the marker of a service error, which is tested first, or
  when its status is not 200. In both examples all three attempts are made.
\<close>

theorem fetch_hn_details_not_found_counterexample:
  "py_in no_such_user_marker ''We're having some trouble serving your request. No such user.'' \<and>
   length (sent (snd (fetch_hn_details
      (test_env (\<lambda>n r. Response 200 ''We're having some trouble serving your request. No such user.'') (\<lambda>t. bare_page))
      ''jane'' 3 (init_scraper 10)))) = 3 \<and>
   py_in no_such_user_marker ''No such user.'' \<and>
   length (sent (snd (fetch_hn_details
      (test_env (\<lambda>n r. Response 404 ''No such user.'') (\<lambda>t. bare_page))
      ''jane'' 3 (init_scraper 10)))) = 3"
proof -
  let ?E1 = "test_env (\<lambda>n r. Response 200 ''We're having some trouble serving your request. No such user.'') (\<lambda>t. bare_page)"
  let ?E2 = "test_env (\<lambda>n r. Response 404 ''No such user.'') (\<lambda>t. bare_page)"
  have a: "\<forall>i<3. transient (net ?E1 (length (sent (init_scraper 10)) + i)
             \<lparr>url = user_url ''jane'', proxy = proxy_of_draw ?E1 (draws (init_scraper 10) + i)\<rparr>)"
    by (simp add: test_env_def trouble_examples)
  have b: "\<forall>i<3. transient (net ?E2 (length (sent (init_scraper 10)) + i)
             \<lparr>url = user_url ''jane'', proxy = proxy_of_draw ?E2 (draws (init_scraper 10) + i)\<rparr>)"
    by (simp add: test_env_def)
  show ?thesis
    by (simp add: fetch_hn_details_all_transient [OF a] fetch_hn_details_all_transient [OF b]
          trouble_examples)
       (simp add: init_scraper_def)
qed

text \<open>
  C8. When every attempt ends in an exception, in a status other than 200 or in a body with
  the marker of a service error, the function makes exactly \<open>attempts\<close> requests, each for
  the candidate's URL and each with a proxy drawn anew, and then returns \<^verbatim>\<open>None\<close>.
\<close>

theorem fetch_hn_details_exhausted:
  assumes "\<forall>i<attempts. transient (net E (length (sent s) + i)
              \<lparr>url = user_url candidate, proxy = proxy_of_draw E (draws s + i)\<rparr>)"
  shows "fst (fetch_hn_details E candidate attempts s) = Inr None \<and>
         sent (snd (fetch_hn_details E candidate attempts s)) =
           sent s @ map (\<lambda>i. \<lparr>url = user_url candidate,
                                 proxy = proxy_of_draw E (draws s + i)\<rparr>) [0..<attempts] \<and>
         length (sent (snd (fetch_hn_details E candidate attempts s))) = length (sent s) + attempts"
  by (simp add: fetch_hn_details_all_transient [OF assms])

theorem fetch_hn_details_exhausted_witness:
  "list_all (\<lambda>i. transient (net (test_env (\<lambda>n r. Response 200 ''We're having some trouble serving your request. Sorry!'') (\<lambda>t. bare_page))
                 (length (sent (init_scraper 10)) + i)
                 \<lparr>url = user_url ''jane'',
                    proxy = proxy_of_draw (test_env (\<lambda>n r. Response 200 ''We're having some trouble serving your request. Sorry!'') (\<lambda>t. bare_page))
                              (draws (init_scraper 10) + i)\<rparr>)) [0..<3] \<and>
   fst (fetch_hn_details (test_env (\<lambda>n r. Response 200 ''We're having some trouble serving your request. Sorry!'') (\<lambda>t. bare_page))
          ''jane'' 3 (init_scraper 10)) = Inr None \<and>
   length (sent (snd (fetch_hn_details (test_env (\<lambda>n r. Response 200 ''We're having some trouble serving your request. Sorry!'') (\<lambda>t. bare_page))
          ''jane'' 3 (init_scraper 10)))) = 3"
proof -
  let ?E = "test_env (\<lambda>n r. Response 200 ''We're having some trouble serving your request. Sorry!'') (\<lambda>t. bare_page)"
  have h: "\<forall>i<3. transient (net ?E (length (sent (init_scraper 10)) + i)
                 \<lparr>url = user_url ''jane'', proxy = proxy_of_draw ?E (draws (init_scraper 10) + i)\<rparr>)"
    by (simp add: test_env_def trouble_examples)
  from fetch_hn_details_exhausted [OF h] h show ?thesis
    by (simp add: init_scraper_def list_all_iff)
qed

text \<open>
  Apart from the unguarded read of the \<^verbatim>\<open>about:\<close> cell, nothing raises: in a world where
  that cell always has a cell after it, \<^verbatim>\<open>_fetch_hn_details\<close> returns, whatever the network
  does.
\<close>

lemma parse_details_contained:
  "label_td pg ''about:'' \<noteq> Some None \<Longrightarrow> \<exists>d. parse_details pg c = Inr d"
  by (auto simp: parse_details_def Let_def split: option.splits)

lemma process_response_contained:
  "\<forall>t. label_td (soup E t) ''about:'' \<noteq> Some None \<Longrightarrow> process_response E c out \<noteq> Raise e"
proof (cases "out")
  case Failed
  then show ?thesis by (simp add: process_response_def)
next
  case (Response status body)
  assume "\<forall>t. label_td (soup E t) ''about:'' \<noteq> Some None"
  then obtain d where "parse_details (soup E body) c = Inr d"
    using parse_details_contained by blast
  with Response show ?thesis by (simp add: process_response_def)
qed

lemma fetch_hn_details_contained:
  assumes "\<forall>t. label_td (soup E t) ''about:'' \<noteq> Some None"
  shows "\<exists>r. fst (fetch_hn_details E c n s) = Inr r"
proof (induction n arbitrary: s)
  case 0
  show ?case by simp
next
  case (Suc n)
  let ?out = "fst (session_get E \<lparr>url = user_url c, proxy = fst (get_proxy_url E s)\<rparr> (snd (get_proxy_url E s)))"
  show ?case
  proof (cases "process_response E c ?out")
    case Continue
    with Suc show ?thesis by (simp add: fetch_unfold del: fetch_hn_details.simps)
  next
    case (Return r)
    then show ?thesis by (simp add: fetch_unfold del: fetch_hn_details.simps)
  next
    case (Raise e)
    with process_response_contained [OF assms] show ?thesis by blast
  qed
qed

subsection \<open>One name: \<^verbatim>\<open>find_hn_usernames\<close>\<close>

text \<open>
  The loop over the candidates looks every candidate up, in the order of the list and as
  often as it occurs there, with one to three requests each.
\<close>

lemma fetch_hn_details_urls:
  "\<exists>k rs. 1 \<le> k \<and> k \<le> Suc n \<and>
          sent (snd (fetch_hn_details E c (Suc n) s)) = sent s @ rs \<and>
          map url rs = replicate k (user_url c)"
proof (induction n arbitrary: s)
  case 0
  let ?req = "\<lparr>url = user_url c, proxy = fst (get_proxy_url E s)\<rparr>"
  let ?s2 = "snd (session_get E ?req (snd (get_proxy_url E s)))"
  let ?out = "fst (session_get E ?req (snd (get_proxy_url E s)))"
  have s2: "sent ?s2 = sent s @ [?req]"
    by (simp add: session_get_def get_proxy_url_def Let_def)
  have "sent (snd (fetch_hn_details E c (Suc 0) s)) = sent s @ [?req]"
    using s2
    by (cases "process_response E c ?out")
       (simp_all add: fetch_unfold [of E c 0 s] del: fetch_hn_details.simps(2))
  moreover have "map url [?req] = replicate 1 (user_url c)" by simp
  moreover have "(1::nat) \<le> 1" "1 \<le> Suc 0" by simp_all
  ultimately show ?case by blast
next
  case (Suc n)
  let ?req = "\<lparr>url = user_url c, proxy = fst (get_proxy_url E s)\<rparr>"
  let ?s2 = "snd (session_get E ?req (snd (get_proxy_url E s)))"
  let ?out = "fst (session_get E ?req (snd (get_proxy_url E s)))"
  have s2: "sent ?s2 = sent s @ [?req]"
    by (simp add: session_get_def get_proxy_url_def Let_def)
  show ?case
  proof (cases "process_response E c ?out")
    case Continue
    from Suc [of ?s2] obtain k rs where
      k: "1 \<le> k" "k \<le> Suc n" "sent (snd (fetch_hn_details E c (Suc n) ?s2)) = sent ?s2 @ rs"
         "map url rs = replicate k (user_url c)" by blast
    have "fetch_hn_details E c (Suc (Suc n)) s = fetch_hn_details E c (Suc n) ?s2"
      using Continue by (simp add: fetch_unfold [of E c "Suc n" s] del: fetch_hn_details.simps)
    then have "sent (snd (fetch_hn_details E c (Suc (Suc n)) s)) = sent s @ (?req # rs)"
      using k(3) s2 by simp
    moreover have "map url (?req # rs) = replicate (Suc k) (user_url c)"
      using k(4) by simp
    moreover have "1 \<le> Suc k" "Suc k \<le> Suc (Suc n)" using k(2) by simp_all
    ultimately show ?thesis by blast
  next
    case (Return r)
    then have "sent (snd (fetch_hn_details E c (Suc (Suc n)) s)) = sent s @ [?req]"
      using s2 by (simp add: fetch_unfold [of E c "Suc n" s] del: fetch_hn_details.simps)
    moreover have "map url [?req] = replicate 1 (user_url c)" by simp
    moreover have "(1::nat) \<le> 1" "1 \<le> Suc (Suc n)" by simp_all
    ultimately show ?thesis by blast
  next
    case (Raise e)
    then have "sent (snd (fetch_hn_details E c (Suc (Suc n)) s)) = sent s @ [?req]"
      using s2 by (simp add: fetch_unfold [of E c "Suc n" s] del: fetch_hn_details.simps)
    moreover have "map url [?req] = replicate 1 (user_url c)" by simp
    moreover have "(1::nat) \<le> 1" "1 \<le> Suc (Suc n)" by simp_all
    ultimately show ?thesis by blast
  qed
qed

lemma probe_all_urls:
  assumes "fst (probe_all E cs ds s) = Inr r"
  shows "\<exists>ks rs. length ks = length cs \<and> (\<forall>k\<in>set ks. 1 \<le> k \<and> k \<le> 3) \<and>
           sent (snd (probe_all E cs ds s)) = sent s @ rs \<and>
           map url rs = concat (map (\<lambda>(c, k). replicate k (user_url c)) (zip cs ks))"
  using assms
proof (induction cs arbitrary: ds s)
  case Nil
  have "length [] = length ([]::string list) \<and> (\<forall>k\<in>set ([]::nat list). 1 \<le> k \<and> k \<le> 3) \<and>
           sent (snd (probe_all E [] ds s)) = sent s @ [] \<and>
           map url [] = concat (map (\<lambda>(c, k). replicate k (user_url c)) (zip ([]::string list) []))"
    by simp
  then show ?case by blast
next
  case (Cons c cs)
  obtain q s1 where f: "fetch_hn_details E c 3 s = (q, s1)" by (cases "fetch_hn_details E c 3 s")
  have three: "(3::nat) = Suc 2" by simp
  from fetch_hn_details_urls [of 2 E c s] obtain k rs1 where
    k: "1 \<le> k" "k \<le> 3" "sent s1 = sent s @ rs1" "map url rs1 = replicate k (user_url c)"
    using f unfolding three by auto
  from Cons.prems f obtain detail where q: "q = Inr detail"
    by (cases q) auto
  let ?ds' = "case detail of None \<Rightarrow> ds | Some d \<Rightarrow> ds @ [d]"
  have p: "probe_all E (c # cs) ds s = probe_all E cs ?ds' s1"
    using f q by (cases detail) simp_all
  with Cons.prems have "fst (probe_all E cs ?ds' s1) = Inr r" by simp
  from Cons.IH [OF this] obtain ks rs where
    i: "length ks = length cs" "\<forall>k\<in>set ks. 1 \<le> k \<and> k \<le> 3"
       "sent (snd (probe_all E cs ?ds' s1)) = sent s1 @ rs"
       "map url rs = concat (map (\<lambda>(c, k). replicate k (user_url c)) (zip cs ks))" by blast
  have "length (k # ks) = length (c # cs)" using i(1) by simp
  moreover have "\<forall>j\<in>set (k # ks). 1 \<le> j \<and> j \<le> 3" using i(2) k(1,2) by simp
  moreover have "sent (snd (probe_all E (c # cs) ds s)) = sent s @ (rs1 @ rs)"
    unfolding p using i(3) k(3) by simp
  moreover have "map url (rs1 @ rs) =
      concat (map (\<lambda>(c, k). replicate k (user_url c)) (zip (c # cs) (k # ks)))"
    using i(4) k(4) by simp
  ultimately show ?case by blast
qed

text \<open>
  The deduplication keeps usernames pairwise different; the lookups leave the cache alone;
  so a cache with deduplicated entries stays one, and what \<^verbatim>\<open>find_hn_usernames\<close> returns
  is deduplicated.
\<close>

lemma dedupe_distinct:
  "distinct (usernames (dedupe xs seen)) \<and>
   (\<forall>u\<in>set (usernames (dedupe xs seen)). truthy u \<and> u \<notin> seen)"
proof (induction xs arbitrary: seen)
  case Nil
  show ?case by (simp add: usernames_def)
next
  case (Cons a xs)
  let ?ua = "dict_get a ''username'' PNone"
  show ?case
  proof (cases "truthy ?ua \<and> ?ua \<notin> seen")
    case True
    then have d: "dedupe (a # xs) seen = a # dedupe xs (insert ?ua seen)"
      by (simp add: Let_def)
    from Cons [of "insert ?ua seen"]
    have ih1: "distinct (usernames (dedupe xs (insert ?ua seen)))"
      and ih2: "\<forall>u\<in>set (usernames (dedupe xs (insert ?ua seen))). truthy u \<and> u \<notin> insert ?ua seen"
      by simp_all
    from ih2 have "?ua \<notin> set (usernames (dedupe xs (insert ?ua seen)))" by blast
    with ih1 ih2 True show ?thesis
      unfolding d by (simp add: usernames_def)
  next
    case False
    then have "dedupe (a # xs) seen = dedupe xs seen"
      by (auto simp: Let_def)
    with Cons [of seen] show ?thesis by simp
  qed
qed

lemma fetch_hn_details_cache: "username_cache (snd (fetch_hn_details E c n s)) = username_cache s"
proof (induction n arbitrary: s)
  case 0
  show ?case by simp
next
  case (Suc n)
  have "username_cache (snd (session_get E r (snd (get_proxy_url E s)))) = username_cache s" for r
    by (simp add: session_get_def get_proxy_url_def Let_def)
  with Suc show ?case
    by (simp add: fetch_unfold del: fetch_hn_details.simps split: attempt.splits)
qed

lemma probe_all_cache: "username_cache (snd (probe_all E cs ds s)) = username_cache s"
proof (induction cs arbitrary: ds s)
  case Nil
  show ?case by simp
next
  case (Cons c cs)
  obtain r s' where f: "fetch_hn_details E c 3 s = (r, s')" by (cases "fetch_hn_details E c 3 s")
  have "username_cache s' = username_cache s"
    using fetch_hn_details_cache [of E c 3 s] f by simp
  with Cons f show ?case
    by (cases r) (auto split: option.splits)
qed

lemma find_hn_usernames_distinct:
  assumes "cache_distinct s" and "find_hn_usernames E fn s = (Inr vs, s')"
  shows "distinct (usernames vs) \<and> cache_distinct s'"
proof (cases "username_cache s fn")
  case (Some cached)
  with assms show ?thesis by (auto simp: find_hn_usernames_def cache_distinct_def)
next
  case None
  let ?norm = "normalize_text (tables E) fn"
  let ?tokens = "py_split (isspace (tables E)) ?norm"
  show ?thesis
  proof (cases "?tokens = []")
    case True
    with None assms show ?thesis by (auto simp: find_hn_usernames_def usernames_def)
  next
    case False
    show ?thesis
    proof (cases "candidates ?norm ?tokens")
      case (Inl e)
      with None False assms show ?thesis by (simp add: find_hn_usernames_def)
    next
      case (Inr cands)
      obtain r s1 where p: "probe_all E cands [] s = (r, s1)" by (cases "probe_all E cands [] s")
      have c1: "username_cache s1 = username_cache s"
        using probe_all_cache [of E cands "[]" s] p by simp
      from None False Inr p assms(2) obtain ds where
        r: "r = Inr ds" and vs: "vs = dedupe ds {}"
        and s': "s' = s1\<lparr>username_cache := (username_cache s1)(fn \<mapsto> dedupe ds {})\<rparr>"
        by (cases r) (auto simp: find_hn_usernames_def Let_def)
      have "distinct (usernames vs)" unfolding vs using dedupe_distinct by blast
      moreover from this assms(1) have "cache_distinct s'"
        unfolding s' cache_distinct_def c1 vs by auto
      ultimately show ?thesis by simp
    qed
  qed
qed

text \<open>
  A call that comes after a completed call for the same name returns the same list and
  sends nothing.
\<close>

lemma find_hn_usernames_cached:
  "username_cache s fn = Some r \<Longrightarrow> find_hn_usernames E fn s = (Inr r, s)"
  by (simp add: find_hn_usernames_def)

lemma find_hn_usernames_again:
  assumes "find_hn_usernames E fn s = (Inr r, s')"
  shows "find_hn_usernames E fn s' = (Inr r, s')"
proof (cases "username_cache s fn")
  case (Some cached)
  with assms show ?thesis by (auto simp: find_hn_usernames_def)
next
  case None
  let ?norm = "normalize_text (tables E) fn"
  let ?tokens = "py_split (isspace (tables E)) ?norm"
  show ?thesis
  proof (cases "?tokens = []")
    case True
    with None assms show ?thesis by (auto simp: find_hn_usernames_def)
  next
    case False
    show ?thesis
    proof (cases "candidates ?norm ?tokens")
      case (Inl e)
      with None False assms show ?thesis by (simp add: find_hn_usernames_def)
    next
      case (Inr cands)
      obtain q s1 where p: "probe_all E cands [] s = (q, s1)" by (cases "probe_all E cands [] s")
      from None False Inr p assms obtain ds where
        "q = Inr ds" and "r = dedupe ds {}"
        and "s' = s1\<lparr>username_cache := (username_cache s1)(fn \<mapsto> dedupe ds {})\<rparr>"
        by (cases q) (auto simp: find_hn_usernames_def Let_def)
      then have "username_cache s' fn = Some r" by simp
      then show ?thesis by (rule find_hn_usernames_cached)
    qed
  qed
qed

text \<open>
  The profile list of \<^verbatim>\<open>_enrich_one\<close>: with deduplicated variants it has pairwise different
  usernames when there is no explicit match, or when the explicit match was resolved under
  the identifier that was looked up.
\<close>

lemma other_variants_distinct:
  assumes "distinct (usernames vs)"
    and "hn0 = [] \<or> (\<exists>d. hn0 = [d] \<and> dict_get d ''username'' PNone = opt_str main_hn)"
  shows "distinct (usernames (hn0 @ other_variants main_hn vs))"
proof -
  have d: "distinct (usernames (other_variants main_hn vs))"
    using assms(1) unfolding usernames_def other_variants_def
    by (induction vs) auto
  have n: "opt_str main_hn \<notin> set (usernames (other_variants main_hn vs))"
    by (auto simp: usernames_def other_variants_def)
  from assms(2) d n show ?thesis by (auto simp: usernames_def)
qed

subsection \<open>Schedules are runs\<close>

lemma run_schedule_loop_run:
  "run_schedule E sched st = Some st' \<Longrightarrow> loop_run E st st'"
proof (induction sched arbitrary: st)
  case Nil
  then show ?case by (simp add: loop_run.stay)
next
  case (Cons i sched)
  then obtain st1 where f: "fire E i st = Some st1" and r: "run_schedule E sched st1 = Some st'"
    by (auto split: option.splits)
  from f have "loop_step E st st1" by (rule loop_step.turn)
  moreover from r have "loop_run E st1 st'" by (rule Cons.IH)
  ultimately show ?case by (rule loop_run.go)
qed

subsection \<open>The loop with one task is \<^verbatim>\<open>_enrich_one\<close>\<close>

text \<open>
  The tasks of the loop are the function \<open>enrich_one\<close> cut at its requests. Segment by
  segment (one call of \<^verbatim>\<open>_fetch_hn_details\<close>, the loop over the candidates, the call of
  \<^verbatim>\<open>find_hn_usernames\<close>, the part after the detail page), a task that runs alone reaches
  the result and the state that the function computes.
\<close>

lemma drive_done: "\<not> is_waiting t \<Longrightarrow> drive E n (t, s) = (t, s)"
  by (cases n; cases t) auto

lemma drive_add: "drive E (n + m) ts = drive E m (drive E n ts)"
proof (induction n arbitrary: ts)
  case 0
  then show ?case by simp
next
  case (Suc n)
  obtain t s where ts: "ts = (t, s)" by (cases ts)
  show ?case
  proof (cases t)
    case (Waiting idx req k)
    with ts Suc show ?thesis by simp
  next
    case (Ready p)
    with ts show ?thesis by (simp add: drive_done)
  next
    case (Finished r)
    with ts show ?thesis by (simp add: drive_done)
  qed
qed

lemma issue_step:
  "drive E (Suc n) (issue E u k s) =
     drive E n (resume E k (fst (session_get E \<lparr>url = u, proxy = fst (get_proxy_url E s)\<rparr> (snd (get_proxy_url E s))))
                  (snd (session_get E \<lparr>url = u, proxy = fst (get_proxy_url E s)\<rparr> (snd (get_proxy_url E s)))))"
  by (simp add: issue_def session_get_def Let_def split: prod.splits)

lemma fetch_segment:
  assumes kont: "\<And>left out s. resume E (K left) out s =
            (case process_response E c out of
               Continue \<Rightarrow> (case left of 0 \<Rightarrow> done None s | Suc n \<Rightarrow> issue E (user_url c) (K n) s)
             | Return detail \<Rightarrow> done detail s
             | Raise e \<Rightarrow> (Finished (Inl e), s))"
  shows "\<exists>n. \<forall>m. drive E (n + m) (issue E (user_url c) (K left) s) =
               drive E m (after_fetch done (fetch_hn_details E c (Suc left) s))"
proof (induction left arbitrary: s)
  case 0
  let ?s1 = "snd (get_proxy_url E s)"
  let ?req = "\<lparr>url = user_url c, proxy = fst (get_proxy_url E s)\<rparr>"
  let ?out = "fst (session_get E ?req ?s1)"
  let ?s2 = "snd (session_get E ?req ?s1)"
  have "drive E (Suc m) (issue E (user_url c) (K 0) s) =
          drive E m (after_fetch done (fetch_hn_details E c (Suc 0) s))" for m
    unfolding issue_step fetch_unfold [of E c 0 s]
    by (cases "process_response E c ?out") (simp_all add: kont after_fetch_def)
  then have "\<forall>m. drive E (1 + m) (issue E (user_url c) (K 0) s) =
               drive E m (after_fetch done (fetch_hn_details E c (Suc 0) s))"
    by simp
  then show ?case by blast
next
  case (Suc left)
  let ?s1 = "snd (get_proxy_url E s)"
  let ?req = "\<lparr>url = user_url c, proxy = fst (get_proxy_url E s)\<rparr>"
  let ?out = "fst (session_get E ?req ?s1)"
  let ?s2 = "snd (session_get E ?req ?s1)"
  from Suc [of ?s2] obtain n where
    n: "\<And>m. drive E (n + m) (issue E (user_url c) (K left) ?s2) =
             drive E m (after_fetch done (fetch_hn_details E c (Suc left) ?s2))" by blast
  show ?case
  proof (cases "process_response E c ?out")
    case Continue
    have "drive E (Suc n + m) (issue E (user_url c) (K (Suc left)) s) =
               drive E m (after_fetch done (fetch_hn_details E c (Suc (Suc left)) s))" for m
    proof -
      have "drive E (Suc n + m) (issue E (user_url c) (K (Suc left)) s) =
              drive E (n + m) (issue E (user_url c) (K left) ?s2)"
        using Continue by (simp add: issue_step kont)
      also have "\<dots> = drive E m (after_fetch done (fetch_hn_details E c (Suc left) ?s2))"
        by (rule n)
      also have "fetch_hn_details E c (Suc left) ?s2 = fetch_hn_details E c (Suc (Suc left)) s"
        unfolding fetch_unfold [of E c "Suc left" s] using Continue by simp
      finally show ?thesis .
    qed
    then show ?thesis by blast
  next
    case (Return r)
    have "drive E (Suc m) (issue E (user_url c) (K (Suc left)) s) =
               drive E m (after_fetch done (fetch_hn_details E c (Suc (Suc left)) s))" for m
      unfolding issue_step fetch_unfold [of E c "Suc left" s]
      using Return by (simp add: kont after_fetch_def)
    then have "\<forall>m. drive E (1 + m) (issue E (user_url c) (K (Suc left)) s) =
               drive E m (after_fetch done (fetch_hn_details E c (Suc (Suc left)) s))"
      by simp
    then show ?thesis by blast
  next
    case (Raise e)
    have "drive E (Suc m) (issue E (user_url c) (K (Suc left)) s) =
               drive E m (after_fetch done (fetch_hn_details E c (Suc (Suc left)) s))" for m
      unfolding issue_step fetch_unfold [of E c "Suc left" s]
      using Raise by (simp add: kont after_fetch_def)
    then have "\<forall>m. drive E (1 + m) (issue E (user_url c) (K (Suc left)) s) =
               drive E m (after_fetch done (fetch_hn_details E c (Suc (Suc left)) s))"
      by simp
    then show ?thesis by blast
  qed
qed

lemma resume_candidate:
  "resume E (AfterCandidate L fn c cs left details) out s =
     (case process_response E c out of
        Continue \<Rightarrow> (case left of
                       0 \<Rightarrow> next_candidate E L fn cs (case None of None \<Rightarrow> details | Some d \<Rightarrow> details @ [d]) s
                     | Suc n \<Rightarrow> issue E (user_url c) (AfterCandidate L fn c cs n details) s)
      | Return detail \<Rightarrow> next_candidate E L fn cs (case detail of None \<Rightarrow> details | Some d \<Rightarrow> details @ [d]) s
      | Raise e \<Rightarrow> (Finished (Inl e), s))"
  by (simp split: attempt.splits nat.splits)

lemma after_probe_done: "\<not> is_waiting (fst (after_probe E L fn rs))"
  by (auto simp: after_probe_def next_candidate_def finish_def Let_def split: prod.splits sum.splits)

lemma probe_segment:
  "\<exists>n. \<forall>m. drive E (n + m) (next_candidate E L fn rest details s) =
           drive E m (after_probe E L fn (probe_all E rest details s))"
proof (induction rest arbitrary: details s)
  case Nil
  have "\<forall>m. drive E (0 + m) (next_candidate E L fn [] details s) =
           drive E m (after_probe E L fn (probe_all E [] details s))"
    by (simp add: after_probe_def)
  then show ?case by blast
next
  case (Cons c cs)
  let ?K = "\<lambda>left. AfterCandidate L fn c cs left details"
  let ?done = "\<lambda>detail s. next_candidate E L fn cs (case detail of None \<Rightarrow> details | Some d \<Rightarrow> details @ [d]) s"
  from fetch_segment [where E = E and K = ?K and c = c and ?done = ?done and left = 2 and s = s, OF resume_candidate]
  obtain n1 where n1: "\<And>m. drive E (n1 + m) (issue E (user_url c) (?K 2) s) =
               drive E m (after_fetch ?done (fetch_hn_details E c (Suc 2) s))" by blast
  have three: "Suc 2 = (3::nat)" by simp
  have nc: "next_candidate E L fn (c # cs) details s = issue E (user_url c) (?K 2) s"
    by (simp add: next_candidate_def)
  obtain r s' where f: "fetch_hn_details E c 3 s = (r, s')" by (cases "fetch_hn_details E c 3 s")
  show ?case
  proof (cases r)
    case (Inl e)
    have "drive E (n1 + m) (next_candidate E L fn (c # cs) details s) =
           drive E m (after_probe E L fn (probe_all E (c # cs) details s))" for m
      unfolding nc n1 three f using Inl f by (simp add: after_fetch_def after_probe_def)
    then show ?thesis by blast
  next
    case (Inr detail)
    let ?d' = "case detail of None \<Rightarrow> details | Some d \<Rightarrow> details @ [d]"
    from Cons [of ?d' s'] obtain n2 where
      n2: "\<And>m. drive E (n2 + m) (next_candidate E L fn cs ?d' s') =
           drive E m (after_probe E L fn (probe_all E cs ?d' s'))" by blast
    have p: "probe_all E (c # cs) details s = probe_all E cs ?d' s'"
      using f Inr by (cases detail) simp_all
    have "drive E ((n1 + n2) + m) (next_candidate E L fn (c # cs) details s) =
           drive E m (after_probe E L fn (probe_all E (c # cs) details s))" for m
    proof -
      have "drive E ((n1 + n2) + m) (next_candidate E L fn (c # cs) details s) =
              drive E (n1 + (n2 + m)) (issue E (user_url c) (?K 2) s)"
        by (simp add: nc add.assoc)
      also have "\<dots> = drive E (n2 + m) (after_fetch ?done (fetch_hn_details E c (Suc 2) s))"
        by (rule n1)
      also have "after_fetch ?done (fetch_hn_details E c (Suc 2) s) = next_candidate E L fn cs ?d' s'"
        unfolding three f using Inr by (simp add: after_fetch_def)
      also have "drive E (n2 + m) (next_candidate E L fn cs ?d' s') =
                   drive E m (after_probe E L fn (probe_all E cs ?d' s'))"
        by (rule n2)
      finally show ?thesis unfolding p .
    qed
    then show ?thesis by blast
  qed
qed

lemma enrich_one_tail:
  "enrich_one E p s =
     tail_links E p (fst (fetch_social_links E (profile_link p) s))
       (snd (fetch_social_links E (profile_link p) s))"
  by (simp add: enrich_one_def tail_links_def tail_variants_def case_prod_beta Let_def
           split: sum.splits option.splits pyval.splits)

lemma variants_segment:
  "\<exists>n. drive E n (begin_variants E L s) =
         (Finished (fst (tail_variants E L s)), snd (tail_variants E L s))"
proof (cases "name (l_person L)")
  case PNone
  then have "drive E 0 (begin_variants E L s) =
         (Finished (fst (tail_variants E L s)), snd (tail_variants E L s))"
    by (simp add: begin_variants_def tail_variants_def)
  then show ?thesis by blast
next
  case (PInt k)
  then have "drive E 0 (begin_variants E L s) =
         (Finished (fst (tail_variants E L s)), snd (tail_variants E L s))"
    by (simp add: begin_variants_def tail_variants_def)
  then show ?thesis by blast
next
  case (PStr fn)
  let ?norm = "normalize_text (tables E) fn"
  let ?tokens = "py_split (isspace (tables E)) ?norm"
  show ?thesis
  proof (cases "username_cache s fn")
    case (Some cached)
    with PStr have "drive E 0 (begin_variants E L s) =
         (Finished (fst (tail_variants E L s)), snd (tail_variants E L s))"
      by (simp add: begin_variants_def tail_variants_def find_hn_usernames_def finish_def)
    then show ?thesis by blast
  next
    case None
    show ?thesis
    proof (cases "?tokens = []")
      case True
      with PStr None have "drive E 0 (begin_variants E L s) =
         (Finished (fst (tail_variants E L s)), snd (tail_variants E L s))"
        by (simp add: begin_variants_def tail_variants_def find_hn_usernames_def finish_def)
      then show ?thesis by blast
    next
      case False
      show ?thesis
      proof (cases "candidates ?norm ?tokens")
        case (Inl e)
        with PStr None False have "drive E 0 (begin_variants E L s) =
           (Finished (fst (tail_variants E L s)), snd (tail_variants E L s))"
          by (simp add: begin_variants_def tail_variants_def find_hn_usernames_def)
        then show ?thesis by blast
      next
        case (Inr cands)
        from probe_segment [of E L fn cands "[]" s] obtain n where
          n: "\<And>m. drive E (n + m) (next_candidate E L fn cands [] s) =
               drive E m (after_probe E L fn (probe_all E cands [] s))" by blast
        have b: "begin_variants E L s = next_candidate E L fn cands [] s"
          using PStr None False Inr by (simp add: begin_variants_def)
        have "drive E n (begin_variants E L s) = after_probe E L fn (probe_all E cands [] s)"
          using n [of 0] b by simp
        also have "\<dots> = (Finished (fst (tail_variants E L s)), snd (tail_variants E L s))"
          using PStr None False Inr
          by (simp add: after_probe_def tail_variants_def find_hn_usernames_def next_candidate_def
                finish_def Let_def split: prod.splits sum.splits)
        finally show ?thesis by blast
      qed
    qed
  qed
qed

lemma resume_explicit:
  "resume E (AfterExplicit p links main_hn left) out s =
     (case process_response E main_hn out of
        Continue \<Rightarrow>
          (case left of
             0 \<Rightarrow> begin_variants E
                    \<lparr>l_person = p, l_links = links, l_main_hn = Some main_hn,
                     l_hn_profiles = (case None of None \<Rightarrow> [] | Some d \<Rightarrow> [d])\<rparr> s
           | Suc n \<Rightarrow> issue E (user_url main_hn) (AfterExplicit p links main_hn n) s)
      | Return detail \<Rightarrow>
          begin_variants E
            \<lparr>l_person = p, l_links = links, l_main_hn = Some main_hn,
             l_hn_profiles = (case detail of None \<Rightarrow> [] | Some d \<Rightarrow> [d])\<rparr> s
      | Raise e \<Rightarrow> (Finished (Inl e), s))"
  by (simp split: attempt.splits nat.splits)

lemma links_segment:
  "\<exists>n. drive E n (after_links E p links s) =
         (Finished (fst (tail_links E p links s)), snd (tail_links E p links s))"
proof (cases "explicit_id E links")
  case (Inl e)
  then have "drive E 0 (after_links E p links s) =
         (Finished (fst (tail_links E p links s)), snd (tail_links E p links s))"
    by (simp add: after_links_def tail_links_def)
  then show ?thesis by blast
next
  case (Inr main_hn)
  show ?thesis
  proof (cases "is_set main_hn")
    case False
    let ?L = "\<lparr>l_person = p, l_links = links, l_main_hn = main_hn, l_hn_profiles = []\<rparr>"
    from variants_segment [of E ?L s] obtain n where
      "drive E n (begin_variants E ?L s) =
         (Finished (fst (tail_variants E ?L s)), snd (tail_variants E ?L s))" by blast
    with Inr False have "drive E n (after_links E p links s) =
         (Finished (fst (tail_links E p links s)), snd (tail_links E p links s))"
      by (simp add: after_links_def tail_links_def)
    then show ?thesis by blast
  next
    case True
    then obtain ident where m: "main_hn = Some ident" by (cases main_hn) auto
    let ?K = "\<lambda>left. AfterExplicit p links ident left"
    let ?L = "\<lambda>detail. \<lparr>l_person = p, l_links = links, l_main_hn = Some ident,
                 l_hn_profiles = (case detail of None \<Rightarrow> [] | Some d \<Rightarrow> [d])\<rparr>"
    let ?done = "\<lambda>detail s. begin_variants E (?L detail) s"
    from fetch_segment [where E = E and K = ?K and c = ident and ?done = ?done and left = 2 and s = s,
           OF resume_explicit]
    obtain n1 where n1: "\<And>m. drive E (n1 + m) (issue E (user_url ident) (?K 2) s) =
               drive E m (after_fetch ?done (fetch_hn_details E ident (Suc 2) s))" by blast
    have three: "Suc 2 = (3::nat)" by simp
    have a: "after_links E p links s = issue E (user_url ident) (?K 2) s"
      using Inr True m by (simp add: after_links_def)
    obtain r s' where f: "fetch_hn_details E ident 3 s = (r, s')"
      by (cases "fetch_hn_details E ident 3 s")
    show ?thesis
    proof (cases r)
      case (Inl e)
      have "drive E (n1 + 0) (after_links E p links s) =
              (Finished (fst (tail_links E p links s)), snd (tail_links E p links s))"
        unfolding a n1 three f using Inl Inr True m f
        by (simp add: after_fetch_def tail_links_def)
      then show ?thesis by blast
    next
      case (Inr detail)
      from variants_segment [of E "?L detail" s'] obtain n2 where
        n2: "drive E n2 (begin_variants E (?L detail) s') =
           (Finished (fst (tail_variants E (?L detail) s')), snd (tail_variants E (?L detail) s'))"
        by blast
      have "drive E (n1 + n2) (after_links E p links s) =
              drive E n2 (after_fetch ?done (fetch_hn_details E ident (Suc 2) s))"
        unfolding a by (rule n1)
      also have "\<dots> = drive E n2 (begin_variants E (?L detail) s')"
        unfolding three f using Inr by (simp add: after_fetch_def)
      also note n2
      also have "(Finished (fst (tail_variants E (?L detail) s')), snd (tail_variants E (?L detail) s'))
                  = (Finished (fst (tail_links E p links s)), snd (tail_links E p links s))"
        using \<open>explicit_id E links = Inr main_hn\<close> True m f Inr
        by (simp add: tail_links_def)
      finally show ?thesis by blast
    qed
  qed
qed

lemma start_segment:
  "\<exists>n. drive E n (start E p s) = (Finished (fst (enrich_one E p s)), snd (enrich_one E p s))"
proof (cases "truthy (profile_link p)")
  case False
  from links_segment [of E p "[]" s] obtain n where
    "drive E n (after_links E p [] s) =
       (Finished (fst (tail_links E p [] s)), snd (tail_links E p [] s))" by blast
  with False have "drive E n (start E p s) =
      (Finished (fst (enrich_one E p s)), snd (enrich_one E p s))"
    by (simp add: start_def enrich_one_tail fetch_social_links_def)
  then show ?thesis by blast
next
  case True
  show ?thesis
  proof (cases "profile_link p")
    case PNone
    with True show ?thesis by simp
  next
    case (PInt k)
    let ?s1 = "snd (get_proxy_url E s)"
    from links_segment [of E p "[]" ?s1] obtain n where
      "drive E n (after_links E p [] ?s1) =
         (Finished (fst (tail_links E p [] ?s1)), snd (tail_links E p [] ?s1))" by blast
    with True PInt have "drive E n (start E p s) =
        (Finished (fst (enrich_one E p s)), snd (enrich_one E p s))"
      by (simp add: start_def enrich_one_tail fetch_social_links_def case_prod_beta)
    then show ?thesis by blast
  next
    case (PStr l)
    let ?s1 = "snd (get_proxy_url E s)"
    let ?req = "\<lparr>url = l, proxy = fst (get_proxy_url E s)\<rparr>"
    let ?out = "fst (session_get E ?req ?s1)"
    let ?s2 = "snd (session_get E ?req ?s1)"
    let ?links = "case ?out of Failed \<Rightarrow> []
                  | Response status text \<Rightarrow> if status = 200 then links_of E text else []"
    from links_segment [of E p ?links ?s2] obtain n where
      n: "drive E n (after_links E p ?links ?s2) =
         (Finished (fst (tail_links E p ?links ?s2)), snd (tail_links E p ?links ?s2))" by blast
    have fs: "fetch_social_links E (profile_link p) s = (?links, ?s2)"
      using True PStr
      by (simp add: fetch_social_links_def case_prod_beta Let_def split: outcome.splits)
    have "drive E (Suc n) (start E p s) = drive E n (after_links E p ?links ?s2)"
      using True PStr by (simp add: start_def issue_step)
    with n have "drive E (Suc n) (start E p s) =
        (Finished (fst (enrich_one E p s)), snd (enrich_one E p s))"
      by (simp add: enrich_one_tail fs)
    then show ?thesis by blast
  qed
qed

lemma fire_spawn_one: "fire E 0 (spawn s [p]) = Some (solo (fst (start E p s)) (snd (start E p s)))"
  by (simp add: fire_def spawn_def settle_def solo_def split: task.splits sum.splits)

lemma fire_solo_waiting:
  "fire E 0 (solo (Waiting idx req k) s) =
     Some (solo (fst (resume E k (net E idx req) s)) (snd (resume E k (net E idx req) s)))"
  by (simp add: fire_def settle_def solo_def split: task.splits sum.splits)

lemma drive_loop_run:
  "loop_run E (solo t s) (solo (fst (drive E n (t, s))) (snd (drive E n (t, s))))"
proof (induction n arbitrary: t s)
  case 0
  show ?case by (simp add: loop_run.stay)
next
  case (Suc n)
  show ?case
  proof (cases t)
    case (Waiting idx req k)
    let ?r = "resume E k (net E idx req) s"
    have "loop_step E (solo t s) (solo (fst ?r) (snd ?r))"
      unfolding Waiting by (rule loop_step.turn [of E 0]) (rule fire_solo_waiting)
    moreover have "loop_run E (solo (fst ?r) (snd ?r))
        (solo (fst (drive E n (fst ?r, snd ?r))) (snd (drive E n (fst ?r, snd ?r))))"
      by (rule Suc)
    ultimately show ?thesis
      unfolding Waiting by (simp add: loop_run.go)
  next
    case (Ready p)
    then show ?thesis by (simp add: loop_run.stay)
  next
    case (Finished r)
    then show ?thesis by (simp add: loop_run.stay)
  qed
qed

lemma loop_of_one_task:
  "\<exists>st. loop_run E (spawn s [p]) st \<and>
        shared st = snd (enrich_one E p s) \<and>
        tasks st = [Finished (fst (enrich_one E p s))] \<and>
        enriched st = (case fst (enrich_one E p s) of Inr p' \<Rightarrow> [p'] | Inl e \<Rightarrow> []) \<and>
        raised st = (case fst (enrich_one E p s) of Inr p' \<Rightarrow> None | Inl e \<Rightarrow> Some e)"
proof -
  from start_segment [of E p s] obtain n where
    n: "drive E n (start E p s) = (Finished (fst (enrich_one E p s)), snd (enrich_one E p s))"
    by blast
  let ?t = "fst (start E p s)" and ?s = "snd (start E p s)"
  let ?st = "solo (Finished (fst (enrich_one E p s))) (snd (enrich_one E p s))"
  have "loop_step E (spawn s [p]) (solo ?t ?s)"
    by (rule loop_step.turn [of E 0]) (rule fire_spawn_one)
  moreover have "loop_run E (solo ?t ?s) ?st"
    using drive_loop_run [of E ?t ?s n] n by simp
  ultimately have "loop_run E (spawn s [p]) ?st"
    by (rule loop_run.go)
  moreover have "shared ?st = snd (enrich_one E p s)"
    and "tasks ?st = [Finished (fst (enrich_one E p s))]"
    and "enriched ?st = (case fst (enrich_one E p s) of Inr p' \<Rightarrow> [p'] | Inl e \<Rightarrow> [])"
    and "raised ?st = (case fst (enrich_one E p s) of Inr p' \<Rightarrow> None | Inl e \<Rightarrow> Some e)"
    by (simp_all add: solo_def split: sum.splits)
  ultimately show ?thesis by blast
qed

subsection \<open>One person: \<^verbatim>\<open>_enrich_one\<close>\<close>

text \<open>
  C4 says that a profile never holds two matches with the same resolved username. The code
  compares the username of a variant with \<^verbatim>\<open>main_hn\<close>, the identifier taken from the link,
  and not with the username under which the explicit match was resolved. Where the service
  shows the explicit identifier \<^verbatim>\<open>Alice\<close> as the user \<^verbatim>\<open>alice\<close>, and the candidate \<^verbatim>\<open>alice\<close>
  resolves to the same user, the profile holds \<^verbatim>\<open>alice\<close> twice.
\<close>

theorem enrich_one_duplicate_username:
  "map_option (map (\<lambda>u. dict_get u ''username'' PNone))
     (case fst (enrich_one alice_env alice (init_scraper 10)) of
        Inr p \<Rightarrow> hn_profiles (person_profile p)
      | Inl e \<Rightarrow> None)
   = Some [PStr ''alice'', PStr ''alice'']"
  by code_simp

lemma about_fetch: "fst (fetch_hn_details about_env ''bob'' 3 (init_scraper 10)) = Inl AttributeError"
  by code_simp

lemma about_enrich: "fst (enrich_one about_env bob (init_scraper 10)) = Inl AttributeError"
  by code_simp

lemma about_run:
  "(case run_schedule about_env [0, 1, 0] (spawn (init_scraper 10) [bob, jane]) of
      None \<Rightarrow> False
    | Some st \<Rightarrow> raised st = Some AttributeError \<and> enriched st = [] \<and> list_ex is_waiting (tasks st))"
  by code_simp

text \<open>
  C5 says that no failure of a single candidate leaves \<^verbatim>\<open>_fetch_hn_details\<close> and no failure
  of a single person leaves \<^verbatim>\<open>enrich_profiles\<close>. On a profile page whose \<^verbatim>\<open>about:\<close> cell
  has no cell after it, \<^verbatim>\<open>_fetch_hn_details\<close> raises AttributeError, \<^verbatim>\<open>_enrich_one\<close> passes
  it on, and a run over two persons ends with that exception raised: nothing is collected,
  the other person's task is left suspended, and the loop takes no further turn.
\<close>

theorem parse_failure_escapes:
  "fst (fetch_hn_details about_env ''bob'' 3 (init_scraper 10)) = Inl AttributeError \<and>
   fst (enrich_one about_env bob (init_scraper 10)) = Inl AttributeError \<and>
   (\<exists>st. loop_run about_env (spawn (init_scraper 10) [bob, jane]) st \<and>
         raised st = Some AttributeError \<and> enriched st = [] \<and>
         list_ex is_waiting (tasks st) \<and> (\<forall>i. fire about_env i st = None))"
proof -
  from about_run obtain st where
    r: "run_schedule about_env [0, 1, 0] (spawn (init_scraper 10) [bob, jane]) = Some st"
    and p: "raised st = Some AttributeError" "enriched st = []" "list_ex is_waiting (tasks st)"
    by (auto split: option.splits)
  from r have "loop_run about_env (spawn (init_scraper 10) [bob, jane]) st"
    by (rule run_schedule_loop_run)
  moreover from p(1) have "\<forall>i. fire about_env i st = None"
    by (simp add: fire_def)
  ultimately show ?thesis using p about_fetch about_enrich by blast
qed

subsection \<open>Many persons: the event loop\<close>

lemma race_run:
  "(case run_schedule nobody_env ([0, 1] @ replicate 9 0 @ replicate 9 1) (spawn (init_scraper 10) [jane, jane]) of
      None \<Rightarrow> False
    | Some st \<Rightarrow> list_all is_finished (tasks st) \<and> raised st = None \<and>
        map url (sent (shared st)) =
          map user_url [''jane'', ''jane'', ''doe'', ''janedoe'', ''doejane'', ''jane.doe'', ''jane_doe'', ''jdoe'', ''janed'', ''janedoe'',
            ''doe'', ''janedoe'', ''doejane'', ''jane.doe'', ''jane_doe'', ''jdoe'', ''janed'', ''janedoe''])"
  by code_simp

text \<open>
  C2 says that concurrent requests for one display name run one resolution sequence. The
  cache is tested before the lookups and written after them, and the lookups await the
  network in between. With two persons of the same name both tasks find the cache empty, and
  each sends its own nine lookups: eighteen requests in this run, where every lookup is
  answered at its first attempt.
\<close>

theorem cache_not_single_flight:
  "\<exists>st. loop_run nobody_env (spawn (init_scraper 10) [jane, jane]) st \<and>
        list_all is_finished (tasks st) \<and> raised st = None \<and>
        map url (sent (shared st)) =
          map user_url [''jane'', ''jane'', ''doe'', ''janedoe'', ''doejane'', ''jane.doe'',
            ''jane_doe'', ''jdoe'', ''janed'', ''janedoe'', ''doe'', ''janedoe'', ''doejane'',
            ''jane.doe'', ''jane_doe'', ''jdoe'', ''janed'', ''janedoe'']"
proof -
  from race_run obtain st where
    r: "run_schedule nobody_env ([0, 1] @ replicate 9 0 @ replicate 9 1)
          (spawn (init_scraper 10) [jane, jane]) = Some st"
    and p: "list_all is_finished (tasks st)" "raised st = None"
      "map url (sent (shared st)) =
          map user_url [''jane'', ''jane'', ''doe'', ''janedoe'', ''doejane'', ''jane.doe'',
            ''jane_doe'', ''jdoe'', ''janed'', ''janedoe'', ''doe'', ''janedoe'', ''doejane'',
            ''jane.doe'', ''jane_doe'', ''jdoe'', ''janed'', ''janedoe'']"
    by (auto split: option.splits)
  from r have "loop_run nobody_env (spawn (init_scraper 10) [jane, jane]) st"
    by (rule run_schedule_loop_run)
  with p show ?thesis by blast
qed

lemma fanout_run:
  "(case run_schedule nobody_env [0..<11] (spawn (init_scraper 10) (replicate 11 jane)) of
      None \<Rightarrow> False
    | Some st \<Rightarrow> in_flight st = 11 \<and> semaphore (shared st) = 10)"
  by code_simp

text \<open>
  No turn of the loop changes the semaphore, and every task that sends a request when it is
  started is in flight once all tasks have been started, however many they are.
\<close>

lemma get_proxy_url_semaphore: "semaphore (snd (get_proxy_url E s)) = semaphore s"
  by (simp add: get_proxy_url_def Let_def)

lemma issue_semaphore: "semaphore (snd (issue E u k s)) = semaphore s"
  by (simp add: issue_def Let_def case_prod_beta get_proxy_url_semaphore)

lemma finish_semaphore: "semaphore (snd (finish L vs s)) = semaphore s"
  by (simp add: finish_def)

lemma next_candidate_semaphore: "semaphore (snd (next_candidate E L fn cs ds s)) = semaphore s"
  by (cases cs) (simp_all add: next_candidate_def Let_def finish_semaphore issue_semaphore)

lemma begin_variants_semaphore: "semaphore (snd (begin_variants E L s)) = semaphore s"
  by (simp add: begin_variants_def Let_def finish_semaphore next_candidate_semaphore
        split: pyval.splits option.splits sum.splits)

lemma after_links_semaphore: "semaphore (snd (after_links E p links s)) = semaphore s"
  by (simp add: after_links_def issue_semaphore begin_variants_semaphore split: sum.splits)

lemma start_semaphore: "semaphore (snd (start E p s)) = semaphore s"
  by (simp add: start_def issue_semaphore after_links_semaphore get_proxy_url_semaphore
        case_prod_beta split: pyval.splits)

lemma resume_semaphore: "semaphore (snd (resume E k out s)) = semaphore s"
  by (cases k)
     (simp_all add: issue_semaphore after_links_semaphore begin_variants_semaphore
        next_candidate_semaphore split: attempt.splits nat.splits)

lemma loop_step_semaphore:
  "loop_step E st st' \<Longrightarrow> semaphore (shared st') = semaphore (shared st)"
  by (induction rule: loop_step.induct)
     (auto simp: fire_def settle_def start_semaphore resume_semaphore
        split: option.splits if_splits task.splits)

lemma loop_run_semaphore:
  "loop_run E st st' \<Longrightarrow> semaphore (shared st') = semaphore (shared st)"
  by (induction rule: loop_run.induct) (simp_all add: loop_step_semaphore)

lemma start_with_link:
  "profile_link p = PStr l \<Longrightarrow> l \<noteq> [] \<Longrightarrow> is_waiting (fst (start E p s))"
  by (simp add: start_def issue_def Let_def case_prod_beta)

lemma start_all:
  assumes "raised st = None" and "tasks st = ws @ map Ready ps" and "list_all is_waiting ws"
    and "\<forall>p\<in>set ps. \<forall>s. is_waiting (fst (start E p s))"
  shows "\<exists>st'. loop_run E st st' \<and> list_all is_waiting (tasks st') \<and>
               length (tasks st') = length ws + length ps"
  using assms
proof (induction ps arbitrary: st ws)
  case Nil
  then have "loop_run E st st \<and> list_all is_waiting (tasks st) \<and>
               length (tasks st) = length ws + length []"
    by (simp add: loop_run.stay)
  then show ?case by blast
next
  case (Cons p ps)
  let ?ts = "start E p (shared st)"
  let ?st1 = "settle (length ws) ?ts st"
  from Cons.prems(4) have w: "is_waiting (fst ?ts)" by simp
  have f: "fire E (length ws) st = Some ?st1"
    using Cons.prems(1,2) by (simp add: fire_def nth_append)
  then have step: "loop_step E st ?st1" by (rule loop_step.turn)
  have r1: "raised ?st1 = None"
    using w Cons.prems(1) by (cases "fst ?ts") (simp_all add: settle_def)
  have t1: "tasks ?st1 = (ws @ [fst ?ts]) @ map Ready ps"
    using Cons.prems(2) by (simp add: settle_def list_update_append)
  have w1: "list_all is_waiting (ws @ [fst ?ts])"
    using Cons.prems(3) w by simp
  from Cons.IH [OF r1 t1 w1] Cons.prems(4) obtain st' where
    "loop_run E ?st1 st'" "list_all is_waiting (tasks st')"
    "length (tasks st') = length (ws @ [fst ?ts]) + length ps" by auto
  with step have "loop_run E st st' \<and> list_all is_waiting (tasks st') \<and>
               length (tasks st') = length ws + length (p # ps)"
    by (auto intro: loop_run.go)
  then show ?case by blast
qed

lemma fan_out_all:
  assumes "\<forall>p\<in>set people. \<forall>s. is_waiting (fst (start E p s))"
  shows "\<exists>st. loop_run E (spawn s0 people) st \<and> in_flight st = length people \<and>
              semaphore (shared st) = semaphore s0"
proof -
  have "raised (spawn s0 people) = None" and "tasks (spawn s0 people) = [] @ map Ready people"
    and "list_all is_waiting []"
    by (simp_all add: spawn_def)
  from start_all [OF this assms] obtain st where
    r: "loop_run E (spawn s0 people) st" and w: "list_all is_waiting (tasks st)"
    and l: "length (tasks st) = length people" by auto
  from w have "filter is_waiting (tasks st) = tasks st"
    by (simp add: list_all_iff)
  with l have "in_flight st = length people" by (simp add: in_flight_def)
  moreover from r have "semaphore (shared st) = semaphore s0"
    by (simp add: loop_run_semaphore spawn_def)
  ultimately show ?thesis using r by blast
qed

text \<open>
  C6 says that the requests in flight never exceed the concurrency limit. The semaphore made
  from \<^verbatim>\<open>max_concurrency\<close> is acquired by no line of \<^verbatim>\<open>enrich_profiles\<close>, \<^verbatim>\<open>_enrich_one\<close>,
  \<^verbatim>\<open>find_hn_usernames\<close> or \<^verbatim>\<open>_fetch_hn_details\<close>. With the limit 10 and eleven persons, all
  eleven tasks are started and each has a request in flight, while all ten permits are free.
\<close>

theorem fan_out_exceeds_limit:
  "\<exists>st. loop_run nobody_env (spawn (init_scraper 10) (replicate 11 jane)) st \<and>
        in_flight st = 11 \<and> semaphore (shared st) = 10"
proof -
  from fanout_run obtain st where
    r: "run_schedule nobody_env [0..<11] (spawn (init_scraper 10) (replicate 11 jane)) = Some st"
    and p: "in_flight st = 11" "semaphore (shared st) = 10"
    by (auto split: option.splits)
  from r have "loop_run nobody_env (spawn (init_scraper 10) (replicate 11 jane)) st"
    by (rule run_schedule_loop_run)
  with p show ?thesis by blast
qed

end
